theory Spec2Isabelle
  imports Complex_Main "HOL-Library.Log_Nat"
begin

section \<open>JavaScript numbers\<close>

text \<open>
  Every number of \<^verbatim>\<open>script.js\<close> is an IEEE 754 binary64 value: NaN, one of the two
  infinities, or a finite value, which is a rational number. The two zeros of the format
  compare equal and differ only as divisors; every divisor of the functions below is
  non-zero (\<^verbatim>\<open>monthly > 0\<close> behind the guard, the constants 12 and 30, and
  \<^verbatim>\<open>dailyExpense || 1\<close>), so the embedding keeps one zero.
  The arguments of the functions are of type number, where \<^verbatim>\<open>Number(x)\<close> is the
  identity.
\<close>

datatype jsnum = NaN | PInf | NInf | Fin rat

text \<open>Powers of two with an integer exponent.\<close>

definition pow2 :: "int \<Rightarrow> rat" where
  "pow2 e = (if 0 \<le> e then 2 ^ nat e else 1 / 2 ^ nat (- e))"

text \<open>The binary exponent of a positive rational: \<open>2 ^ ilog2 x \<le> x < 2 ^ (ilog2 x + 1)\<close>.\<close>

definition ilog2 :: "rat \<Rightarrow> int" where
  "ilog2 x = (if 1 \<le> x then bitlen \<lfloor>x\<rfloor> - 1 else - bitlen (\<lceil>1 / x\<rceil> - 1))"

text \<open>Rounding to the nearest integer, a tie going to the even neighbour.\<close>

definition roundHalfEven :: "rat \<Rightarrow> int" where
  "roundHalfEven y =
     (let f = \<lfloor>y\<rfloor>; d = y - of_int f
      in if d < 1 / 2 then f else if 1 / 2 < d then f + 1 else if even f then f else f + 1)"

text \<open>
  The spacing of binary64 values around \<open>x\<close>: 53 significant bits, the exponent
  not below \<open>-1022\<close> (the subnormal range has the spacing \<open>2 ^ -1074\<close>).
\<close>

definition ulp :: "rat \<Rightarrow> rat" where
  "ulp x = pow2 (max (ilog2 \<bar>x\<bar>) (- 1022) - 52)"

text \<open>
  The binary64 result of an exact value: round to nearest, ties to even, and a result
  of magnitude \<open>2 ^ 1024\<close> or more is an infinity.
\<close>

definition fl :: "rat \<Rightarrow> jsnum" where
  "fl x =
     (if x = 0 then Fin 0
      else let y = of_int (roundHalfEven (x / ulp x)) * ulp x
           in if pow2 1024 \<le> \<bar>y\<bar> then (if 0 < x then PInf else NInf) else Fin y)"

text \<open>
  The rounding alone, before the range check of \<open>fl\<close>, and the rationals that are values
  of the format: those that rounding leaves unchanged.
\<close>

definition rnd :: "rat \<Rightarrow> rat" where
  "rnd x = of_int (roundHalfEven (x / ulp x)) * ulp x"

definition double :: "rat \<Rightarrow> bool" where
  "double x \<longleftrightarrow> fl x = Fin x"

fun isFinite :: "jsnum \<Rightarrow> bool" where
  "isFinite (Fin x) = True"
| "isFinite _ = False"

fun jsneg :: "jsnum \<Rightarrow> jsnum" where
  "jsneg NaN = NaN"
| "jsneg PInf = NInf"
| "jsneg NInf = PInf"
| "jsneg (Fin x) = Fin (- x)"

text \<open>The operators \<^verbatim>\<open>*\<close>, \<^verbatim>\<open>-\<close>, \<^verbatim>\<open>/\<close> and \<^verbatim>\<open><=\<close> on numbers.\<close>

fun jsmul :: "jsnum \<Rightarrow> jsnum \<Rightarrow> jsnum" where
  "jsmul NaN _ = NaN"
| "jsmul _ NaN = NaN"
| "jsmul (Fin x) (Fin y) = fl (x * y)"
| "jsmul (Fin x) i = (if x = 0 then NaN else if 0 < x then i else jsneg i)"
| "jsmul i (Fin y) = (if y = 0 then NaN else if 0 < y then i else jsneg i)"
| "jsmul i j = (if i = j then PInf else NInf)"

fun jssub :: "jsnum \<Rightarrow> jsnum \<Rightarrow> jsnum" where
  "jssub NaN _ = NaN"
| "jssub _ NaN = NaN"
| "jssub (Fin x) (Fin y) = fl (x - y)"
| "jssub (Fin x) i = jsneg i"
| "jssub i (Fin y) = i"
| "jssub i j = (if i = j then NaN else i)"

fun jsdiv :: "jsnum \<Rightarrow> jsnum \<Rightarrow> jsnum" where
  "jsdiv NaN _ = NaN"
| "jsdiv _ NaN = NaN"
| "jsdiv (Fin x) (Fin y) =
     (if y = 0 then (if x = 0 then NaN else if 0 < x then PInf else NInf) else fl (x / y))"
| "jsdiv (Fin x) i = Fin 0"
| "jsdiv i (Fin y) = (if 0 \<le> y then i else jsneg i)"
| "jsdiv i j = NaN"

fun jsle :: "jsnum \<Rightarrow> jsnum \<Rightarrow> bool" where
  "jsle NaN _ = False"
| "jsle _ NaN = False"
| "jsle (Fin x) (Fin y) = (x \<le> y)"
| "jsle NInf _ = True"
| "jsle _ PInf = True"
| "jsle _ _ = False"

text \<open>
  \<^verbatim>\<open>Math.floor\<close> and \<^verbatim>\<open>Math.round\<close>; the latter rounds a tie towards
  \<open>+\<infinity>\<close>. Both are exact: their result on a binary64 value is a binary64 value.
\<close>

fun Math_floor :: "jsnum \<Rightarrow> jsnum" where
  "Math_floor (Fin x) = Fin (of_int \<lfloor>x\<rfloor>)"
| "Math_floor i = i"

fun Math_round :: "jsnum \<Rightarrow> jsnum" where
  "Math_round (Fin x) = Fin (of_int \<lfloor>x + 1 / 2\<rfloor>)"
| "Math_round i = i"

text \<open>
  Truthiness and \<^verbatim>\<open>||\<close>. A property read may give \<^verbatim>\<open>undefined\<close>, which is
  \<open>None\<close>; zero, NaN and \<^verbatim>\<open>undefined\<close> are falsy.
\<close>

fun truthy :: "jsnum \<Rightarrow> bool" where
  "truthy NaN = False"
| "truthy (Fin x) = (x \<noteq> 0)"
| "truthy _ = True"

fun js_or :: "jsnum option \<Rightarrow> jsnum option \<Rightarrow> jsnum option" where
  "js_or (Some a) b = (if truthy a then Some a else b)"
| "js_or None b = b"

fun js_or_num :: "jsnum option \<Rightarrow> jsnum \<Rightarrow> jsnum" where
  "js_or_num (Some a) b = (if truthy a then a else b)"
| "js_or_num None b = b"

section \<open>The tables\<close>

text \<open>
  An object literal is the finite map of its own properties. Of a country's configuration
  the calculation core reads the currency and the fallback rates.
\<close>

definition LIFESTYLE_MATRIX :: "string \<rightharpoonup> (string \<rightharpoonup> jsnum)" where
  "LIFESTYLE_MATRIX = map_of
     [(''VN'', map_of [(''budget'', Fin 12000000), (''standard'', Fin 25000000), (''highlife'', Fin 60000000)]),
      (''TH'', map_of [(''budget'', Fin 25000), (''standard'', Fin 50000), (''highlife'', Fin 120000)]),
      (''PH'', map_of [(''budget'', Fin 35000), (''standard'', Fin 60000), (''highlife'', Fin 150000)]),
      (''ID'', map_of [(''budget'', Fin 10000000), (''standard'', Fin 20000000), (''highlife'', Fin 50000000)]),
      (''JP'', map_of [(''budget'', Fin 180000), (''standard'', Fin 350000), (''highlife'', Fin 800000)]),
      (''KR'', map_of [(''budget'', Fin 1500000), (''standard'', Fin 2500000), (''highlife'', Fin 5500000)])]"

record country_config =
  currency :: string
  fallbackRate :: "string \<rightharpoonup> jsnum"

definition COUNTRY_CONFIG :: "string \<rightharpoonup> country_config" where
  "COUNTRY_CONFIG = map_of
     [(''VN'', \<lparr>currency = ''VND'', fallbackRate = map_of
         [(''USD'', Fin 24500), (''EUR'', Fin 26500), (''GBP'', Fin 31000),
          (''AUD'', Fin 16000), (''CAD'', Fin 18000), (''RON'', Fin 5300)]\<rparr>),
      (''TH'', \<lparr>currency = ''THB'', fallbackRate = map_of
         [(''USD'', Fin 35), (''EUR'', Fin 38), (''GBP'', Fin 44),
          (''AUD'', Fin 23), (''CAD'', Fin 26), (''RON'', Fin (15 / 2))]\<rparr>),
      (''PH'', \<lparr>currency = ''PHP'', fallbackRate = map_of
         [(''USD'', Fin 56), (''EUR'', Fin 61), (''GBP'', Fin 71),
          (''AUD'', Fin 37), (''CAD'', Fin 41), (''RON'', Fin 12)]\<rparr>),
      (''ID'', \<lparr>currency = ''IDR'', fallbackRate = map_of
         [(''USD'', Fin 15700), (''EUR'', Fin 17000), (''GBP'', Fin 19800),
          (''AUD'', Fin 10300), (''CAD'', Fin 11500), (''RON'', Fin 3400)]\<rparr>),
      (''JP'', \<lparr>currency = ''JPY'', fallbackRate = map_of
         [(''USD'', Fin 149), (''EUR'', Fin 162), (''GBP'', Fin 188),
          (''AUD'', Fin 98), (''CAD'', Fin 109), (''RON'', Fin 32)]\<rparr>),
      (''KR'', \<lparr>currency = ''KRW'', fallbackRate = map_of
         [(''USD'', Fin 1320), (''EUR'', Fin 1430), (''GBP'', Fin 1670),
          (''AUD'', Fin 870), (''CAD'', Fin 970), (''RON'', Fin 285)]\<rparr>)]"

section \<open>NomadFlow\<close>

subsection \<open>fetchExchangeRate\<close>

text \<open>
  What the awaited calls of the \<^verbatim>\<open>try\<close> block give: \<^verbatim>\<open>fetch\<close> rejects, or
  resolves to a response with its \<^verbatim>\<open>ok\<close> flag; \<^verbatim>\<open>resp.json()\<close> rejects, or
  resolves to data whose \<^verbatim>\<open>rates\<close> is falsy (\<open>None\<close>) or an object, a property
  of which is a number or a value of another type.
\<close>

datatype jsvalue = JNumber jsnum | JOther

datatype json_body = Unparsable | Parsed "(string \<rightharpoonup> jsvalue) option"

datatype fetch_outcome = Rejected | Responded bool json_body

datatype js_error = Error string | TypeError

text \<open>
  \<^verbatim>\<open>String.prototype.toUpperCase\<close> on the letters of ASCII, the alphabet of the
  currency codes; strings are byte strings here.
\<close>

definition upper_char :: "char \<Rightarrow> char" where
  "upper_char c =
     (case map_of (zip ''abcdefghijklmnopqrstuvwxyz'' ''ABCDEFGHIJKLMNOPQRSTUVWXYZ'') c of
        Some u \<Rightarrow> u | None \<Rightarrow> c)"

definition toUpperCase :: "string \<Rightarrow> string" where
  "toUpperCase s = map upper_char s"

text \<open>The body of the \<^verbatim>\<open>try\<close> block: the live rate, or the error thrown.\<close>

definition try_fetch :: "string \<Rightarrow> fetch_outcome \<Rightarrow> js_error + jsnum" where
  "try_fetch toCurrency outcome =
     (case outcome of
        Rejected \<Rightarrow> Inl (Error ''fetch'')
      | Responded ok body \<Rightarrow>
          if \<not> ok then Inl (Error ''Network error'')
          else (case body of
                  Unparsable \<Rightarrow> Inl (Error ''json'')
                | Parsed None \<Rightarrow> Inl (Error ''Invalid response'')
                | Parsed (Some rates) \<Rightarrow>
                    (case rates toCurrency of
                       Some (JNumber r) \<Rightarrow> Inr r
                     | _ \<Rightarrow> Inl (Error ''Invalid response''))))"

text \<open>
  The \<^verbatim>\<open>catch\<close> block reads the global \<^verbatim>\<open>currentCountry\<close>; a property read on
  the \<^verbatim>\<open>undefined\<close> configuration of an unknown country throws a TypeError.
\<close>

definition catch_fallback :: "string \<Rightarrow> string \<Rightarrow> js_error + jsnum option" where
  "catch_fallback currentCountry fromCurrency =
     (case COUNTRY_CONFIG currentCountry of
        None \<Rightarrow> Inl TypeError
      | Some config \<Rightarrow>
          Inr (js_or (fallbackRate config (toUpperCase fromCurrency)) (fallbackRate config ''USD'')))"

definition fetchExchangeRate ::
  "string \<Rightarrow> string \<Rightarrow> string \<Rightarrow> fetch_outcome \<Rightarrow> js_error + jsnum option" where
  "fetchExchangeRate currentCountry fromCurrency toCurrency outcome =
     (case try_fetch toCurrency outcome of
        Inr r \<Rightarrow> Inr (Some r)
      | Inl err \<Rightarrow> catch_fallback currentCountry fromCurrency)"

text \<open>The failures of the live lookup, one by one.\<close>

fun lookup_failed :: "string \<Rightarrow> fetch_outcome \<Rightarrow> bool" where
  "lookup_failed toCurrency Rejected = True"
| "lookup_failed toCurrency (Responded ok Unparsable) = True"
| "lookup_failed toCurrency (Responded ok (Parsed None)) = True"
| "lookup_failed toCurrency (Responded ok (Parsed (Some rates))) =
     (\<not> ok \<or> (case rates toCurrency of Some (JNumber r) \<Rightarrow> False | _ \<Rightarrow> True))"

subsection \<open>convertAmount\<close>

definition convertAmount :: "jsnum \<Rightarrow> jsnum \<Rightarrow> jsnum" where
  "convertAmount amount rate =
     (let n = amount; r = rate
      in if \<not> isFinite n \<or> \<not> isFinite r then Fin 0 else Math_round (jsmul n r))"

subsection \<open>calculateLongevity\<close>

record longevity =
  months :: jsnum
  years :: jsnum
  remainder :: jsnum
  daysApprox :: jsnum

definition calculateLongevity :: "jsnum \<Rightarrow> jsnum \<Rightarrow> longevity" where
  "calculateLongevity budgetLocal monthlyExpense =
     (let budget = budgetLocal; monthly = monthlyExpense
      in if \<not> isFinite budget \<or> \<not> isFinite monthly \<or> jsle monthly (Fin 0)
         then \<lparr>months = Fin 0, years = Fin 0, remainder = budget, daysApprox = Fin 0\<rparr>
         else let monthsFloat = jsdiv budget monthly;
                  months = Math_floor monthsFloat;
                  years = Math_floor (jsdiv months (Fin 12));
                  remainder = Math_round (jssub budget (jsmul months monthly));
                  dailyExpense = jsdiv monthly (Fin 30);
                  daysApprox = Math_floor (jsdiv remainder (js_or_num (Some dailyExpense) (Fin 1)))
              in \<lparr>months = months, years = years, remainder = remainder,
                   daysApprox = daysApprox\<rparr>)"

subsection \<open>getLifestyleAmount\<close>

text \<open>
  \<^verbatim>\<open>LIFESTYLE_MATRIX\<close> and its rows are plain object literals, and a bracket read looks
  a name up along the prototype chain: first among the own properties, then in
  \<^verbatim>\<open>Object.prototype\<close>. So a read can give a number, \<^verbatim>\<open>undefined\<close>, or a
  built-in function or object, and the result of the function is a value of any of these
  kinds. A built-in object or function is named by its path,
  as in \<^verbatim>\<open>Object.prototype.toString\<close>.
\<close>

datatype jsval = JUndefined | JNull | JNum jsnum | JString string | JObject string

fun truthy_val :: "jsval \<Rightarrow> bool" where
  "truthy_val JUndefined = False"
| "truthy_val JNull = False"
| "truthy_val (JNum n) = truthy n"
| "truthy_val (JString s) = (s \<noteq> [])"
| "truthy_val (JObject name) = True"

text \<open>
  The built-in objects are those of ECMAScript 2024, Annex B included:
  the methods of \<^verbatim>\<open>Object.prototype\<close> with their \<^verbatim>\<open>length\<close>, the methods of
  \<^verbatim>\<open>Function.prototype\<close>, and the static methods of \<^verbatim>\<open>Object\<close>.
\<close>

definition Object_prototype_methods :: "(string \<times> rat) list" where
  "Object_prototype_methods =
     [(''hasOwnProperty'', 1), (''isPrototypeOf'', 1), (''propertyIsEnumerable'', 1),
      (''toLocaleString'', 0), (''toString'', 0), (''valueOf'', 0),
      (''__defineGetter__'', 2), (''__defineSetter__'', 2),
      (''__lookupGetter__'', 1), (''__lookupSetter__'', 1)]"

definition Function_prototype_methods :: "string list" where
  "Function_prototype_methods = [''apply'', ''bind'', ''call'', ''toString'']"

definition Object_static_methods :: "string list" where
  "Object_static_methods =
     [''assign'', ''create'', ''defineProperties'', ''defineProperty'', ''entries'', ''freeze'',
      ''fromEntries'', ''getOwnPropertyDescriptor'', ''getOwnPropertyDescriptors'',
      ''getOwnPropertyNames'', ''getOwnPropertySymbols'', ''getPrototypeOf'', ''groupBy'',
      ''hasOwn'', ''is'', ''isExtensible'', ''isFrozen'', ''isSealed'', ''keys'',
      ''preventExtensions'', ''seal'', ''setPrototypeOf'', ''values'']"

text \<open>The names that every plain object inherits from \<^verbatim>\<open>Object.prototype\<close>.\<close>

definition Object_prototype_names :: "string list" where
  "Object_prototype_names = ''__proto__'' # ''constructor'' # map fst Object_prototype_methods"

text \<open>
  A read that reaches \<^verbatim>\<open>Object.prototype\<close>, for a receiver with the given prototype:
  the accessor \<^verbatim>\<open>__proto__\<close> gives the prototype of the receiver.
\<close>

definition read_Object_prototype :: "jsval \<Rightarrow> string \<Rightarrow> jsval" where
  "read_Object_prototype proto key =
     (if key = ''__proto__'' then proto
      else if key = ''constructor'' then JObject ''Object''
      else if key \<in> set (map fst Object_prototype_methods)
        then JObject (''Object.prototype.'' @ key)
      else JUndefined)"

text \<open>
  A read on a built-in function that reaches \<^verbatim>\<open>Function.prototype\<close>, whose accessors
  \<^verbatim>\<open>caller\<close> and \<^verbatim>\<open>arguments\<close> throw a TypeError.
\<close>

definition read_Function_prototype :: "string \<Rightarrow> js_error + jsval" where
  "read_Function_prototype key =
     (if key = ''caller'' \<or> key = ''arguments'' then Inl TypeError
      else if key \<in> set Function_prototype_methods
        then Inr (JObject (''Function.prototype.'' @ key))
      else if key = ''constructor'' then Inr (JObject ''Function'')
      else if key = ''length'' then Inr (JNum (Fin 0))
      else if key = ''name'' then Inr (JString [])
      else Inr (read_Object_prototype (JObject ''Function.prototype'') key))"

text \<open>
  What \<^verbatim>\<open>LIFESTYLE_MATRIX[countryCode]\<close> can be: a row, or one of the objects that the
  matrix inherits.
\<close>

datatype receiver =
  Row "string \<rightharpoonup> jsnum" | Object_prototype | Object_constructor | Object_prototype_method string

definition LIFESTYLE_MATRIX_get :: "string \<Rightarrow> receiver option" where
  "LIFESTYLE_MATRIX_get countryCode =
     (case LIFESTYLE_MATRIX countryCode of
        Some tiers \<Rightarrow> Some (Row tiers)
      | None \<Rightarrow>
          if countryCode = ''__proto__'' then Some Object_prototype
          else if countryCode = ''constructor'' then Some Object_constructor
          else if countryCode \<in> set (map fst Object_prototype_methods)
            then Some (Object_prototype_method countryCode)
          else None)"

fun get_property :: "receiver \<Rightarrow> string \<Rightarrow> js_error + jsval" where
  "get_property (Row tiers) key =
     (case tiers key of
        Some amount \<Rightarrow> Inr (JNum amount)
      | None \<Rightarrow> Inr (read_Object_prototype (JObject ''Object.prototype'') key))"
| "get_property Object_prototype key = Inr (read_Object_prototype JNull key)"
| "get_property Object_constructor key =
     (if key = ''length'' then Inr (JNum (Fin 1))
      else if key = ''name'' then Inr (JString ''Object'')
      else if key = ''prototype'' then Inr (JObject ''Object.prototype'')
      else if key \<in> set Object_static_methods then Inr (JObject (''Object.'' @ key))
      else read_Function_prototype key)"
| "get_property (Object_prototype_method f) key =
     (if key = ''length''
        then Inr (JNum (Fin (case map_of Object_prototype_methods f of Some n \<Rightarrow> n | None \<Rightarrow> 0)))
      else if key = ''name'' then Inr (JString f)
      else read_Function_prototype key)"

text \<open>\<^verbatim>\<open>LIFESTYLE_MATRIX[countryCode]?.[lifestyle]\<close>.\<close>

definition tier_of :: "string \<Rightarrow> string \<Rightarrow> js_error + jsval" where
  "tier_of countryCode lifestyle =
     (case LIFESTYLE_MATRIX_get countryCode of
        None \<Rightarrow> Inr JUndefined
      | Some object \<Rightarrow> get_property object lifestyle)"

text \<open>
  \<^verbatim>\<open>a || b || 0\<close>: the second read is made only when the first value is falsy, and an
  error thrown by a read leaves the function.
\<close>

definition getLifestyleAmount :: "string \<Rightarrow> string \<Rightarrow> js_error + jsval" where
  "getLifestyleAmount countryCode lifestyle =
     (case tier_of countryCode lifestyle of
        Inl err \<Rightarrow> Inl err
      | Inr a \<Rightarrow>
          if truthy_val a then Inr a
          else (case tier_of countryCode ''standard'' of
                  Inl err \<Rightarrow> Inl err
                | Inr b \<Rightarrow> if truthy_val b then Inr b else Inr (JNum (Fin 0))))"

section \<open>BudgetUtils\<close>

text \<open>The second module of the file, for Vietnam alone; its result names the remainder \<^verbatim>\<open>remainderVND\<close>.\<close>

record longevity_vnd =
  vnd_months :: jsnum
  vnd_years :: jsnum
  remainderVND :: jsnum
  vnd_daysApprox :: jsnum

definition BudgetUtils_calculateLongevity :: "jsnum \<Rightarrow> jsnum \<Rightarrow> longevity_vnd" where
  "BudgetUtils_calculateLongevity budgetVND monthlyExpenseVND =
     (let budget = budgetVND; monthly = monthlyExpenseVND
      in if \<not> isFinite budget \<or> \<not> isFinite monthly \<or> jsle monthly (Fin 0)
         then \<lparr>vnd_months = Fin 0, vnd_years = Fin 0, remainderVND = budget, vnd_daysApprox = Fin 0\<rparr>
         else let monthsFloat = jsdiv budget monthly;
                  months = Math_floor monthsFloat;
                  years = Math_floor (jsdiv months (Fin 12));
                  remainderVND = Math_round (jssub budget (jsmul months monthly));
                  dailyExpense = jsdiv monthly (Fin 30);
                  daysApprox = Math_floor (jsdiv remainderVND (js_or_num (Some dailyExpense) (Fin 1)))
              in \<lparr>vnd_months = months, vnd_years = years, remainderVND = remainderVND,
                   vnd_daysApprox = daysApprox\<rparr>)"

section \<open>Binary64 rounding\<close>

subsection \<open>Powers of two and the binary exponent\<close>

lemma pow2_powi: "pow2 e = 2 powi e"
  by (simp add: pow2_def power_int_def field_simps)

lemma pow2_pos: "0 < pow2 e"
  by (simp add: pow2_powi)

lemma pow2_add: "pow2 (a + b) = pow2 a * pow2 b"
  by (simp add: pow2_powi power_int_add)

lemma pow2_diff: "pow2 (a - b) = pow2 a / pow2 b"
  by (simp add: pow2_powi power_int_diff)

lemma pow2_mono: "a \<le> b \<Longrightarrow> pow2 a \<le> pow2 b"
  by (simp add: pow2_powi power_int_increasing)

lemma pow2_strict_mono: "a < b \<Longrightarrow> pow2 a < pow2 b"
  by (simp add: pow2_powi power_int_strict_increasing)

lemma pow2_nat: "0 \<le> e \<Longrightarrow> pow2 e = of_int (2 ^ nat e)"
  by (simp add: pow2_def)

lemma pow2_0: "pow2 0 = 1"
  by (simp add: pow2_def)

lemma ilog2_bounds:
  assumes "0 < x"
  shows "pow2 (ilog2 x) \<le> x" and "x < pow2 (ilog2 x + 1)"
proof -
  have "pow2 (ilog2 x) \<le> x \<and> x < pow2 (ilog2 x + 1)"
  proof (cases "1 \<le> x")
    case True
    define N where "N = \<lfloor>x\<rfloor>"
    have N: "0 < N" using True by (simp add: N_def)
    have b: "1 \<le> bitlen N" using N by (simp add: bitlen_alt_def)
    have e: "ilog2 x = bitlen N - 1" using True by (simp add: ilog2_def N_def)
    from bitlen_bounds [OF N] have lo: "2 ^ nat (bitlen N - 1) \<le> N" and hi: "N < 2 ^ nat (bitlen N)"
      by simp_all
    have "pow2 (bitlen N - 1) = of_int (2 ^ nat (bitlen N - 1))"
      using b by (simp add: pow2_nat)
    also have "\<dots> \<le> of_int N" using lo by (simp only: of_int_le_iff)
    also have "\<dots> \<le> x" by (simp add: N_def)
    finally have 1: "pow2 (ilog2 x) \<le> x" by (simp add: e)
    have "N + 1 \<le> 2 ^ nat (bitlen N)" using hi by simp
    then have "(of_int (N + 1) :: rat) \<le> of_int (2 ^ nat (bitlen N))"
      by (simp only: of_int_le_iff)
    moreover have "x < of_int (N + 1)" using floor_correct [of x] by (simp add: N_def)
    moreover have "pow2 (bitlen N) = of_int (2 ^ nat (bitlen N))"
      using b by (simp add: pow2_nat)
    ultimately have "x < pow2 (ilog2 x + 1)" by (simp add: e)
    with 1 show ?thesis by simp
  next
    case False
    define y where "y = 1 / x"
    have y: "1 < y" using False assms by (simp add: y_def)
    define M where "M = \<lceil>y\<rceil> - 1"
    have M: "0 < M" using y by (simp add: M_def less_ceiling_iff)
    have b: "1 \<le> bitlen M" using M by (simp add: bitlen_alt_def)
    have e: "ilog2 x = - bitlen M" using False by (simp add: ilog2_def M_def y_def)
    from bitlen_bounds [OF M] have lo: "2 ^ nat (bitlen M - 1) \<le> M" and hi: "M < 2 ^ nat (bitlen M)"
      by simp_all
    have My: "of_int M < y" using ceiling_correct [of y] by (simp add: M_def)
    have yM: "y \<le> of_int (M + 1)" using ceiling_correct [of y] by (simp add: M_def)
    have "M + 1 \<le> 2 ^ nat (bitlen M)" using hi by simp
    then have "(of_int (M + 1) :: rat) \<le> of_int (2 ^ nat (bitlen M))"
      by (simp only: of_int_le_iff)
    with yM have "y \<le> of_int (2 ^ nat (bitlen M))" by linarith
    then have yhi: "y \<le> pow2 (bitlen M)" using b by (simp add: pow2_nat)
    have "(of_int (2 ^ nat (bitlen M - 1)) :: rat) \<le> of_int M"
      using lo by (simp only: of_int_le_iff)
    with My have "of_int (2 ^ nat (bitlen M - 1)) < y" by linarith
    then have ylo: "pow2 (bitlen M - 1) < y" using b by (simp add: pow2_nat)
    have "pow2 (- bitlen M) = 1 / pow2 (bitlen M)"
      using pow2_diff [of 0 "bitlen M"] by (simp add: pow2_0)
    also have "\<dots> \<le> 1 / y"
      using yhi y by (simp add: frac_le)
    finally have 1: "pow2 (ilog2 x) \<le> x" using assms by (simp add: e y_def)
    have "1 / y < 1 / pow2 (bitlen M - 1)"
      using ylo pow2_pos [of "bitlen M - 1"] by (simp add: frac_less2)
    also have "\<dots> = pow2 (- bitlen M + 1)"
      using pow2_diff [of 0 "bitlen M - 1"] by (simp add: pow2_0)
    finally have "x < pow2 (ilog2 x + 1)" using assms by (simp add: e y_def)
    with 1 show ?thesis by simp
  qed
  then show "pow2 (ilog2 x) \<le> x" and "x < pow2 (ilog2 x + 1)" by simp_all
qed

lemma ilog2_unique:
  assumes "pow2 e \<le> x" and "x < pow2 (e + 1)"
  shows "ilog2 x = e"
proof -
  have x: "0 < x" using assms(1) pow2_pos [of e] by linarith
  note b = ilog2_bounds [OF x]
  have "\<not> ilog2 x < e"
  proof
    assume "ilog2 x < e"
    then have "pow2 (ilog2 x + 1) \<le> pow2 e" by (simp add: pow2_mono)
    with b(2) assms(1) show False by linarith
  qed
  moreover have "\<not> e < ilog2 x"
  proof
    assume "e < ilog2 x"
    then have "pow2 (e + 1) \<le> pow2 (ilog2 x)" by (simp add: pow2_mono)
    with b(1) assms(2) show False by linarith
  qed
  ultimately show ?thesis by linarith
qed

subsection \<open>Rounding to an integer\<close>

lemma roundHalfEven_cases:
  "roundHalfEven y = \<lfloor>y\<rfloor> \<and> y - of_int \<lfloor>y\<rfloor> \<le> 1 / 2
 \<or> roundHalfEven y = \<lfloor>y\<rfloor> + 1 \<and> 1 / 2 \<le> y - of_int \<lfloor>y\<rfloor>"
  by (auto simp add: roundHalfEven_def Let_def)

lemma roundHalfEven_upper: "of_int (roundHalfEven y) \<le> y + 1 / 2"
proof -
  have f: "of_int \<lfloor>y\<rfloor> \<le> y" by (rule of_int_floor_le)
  from roundHalfEven_cases [of y] show ?thesis
  proof (elim disjE conjE)
    assume "roundHalfEven y = \<lfloor>y\<rfloor>"
    with f show ?thesis by linarith
  next
    assume "roundHalfEven y = \<lfloor>y\<rfloor> + 1" and "1 / 2 \<le> y - of_int \<lfloor>y\<rfloor>"
    then show ?thesis by (simp only: of_int_add of_int_1)
  qed
qed

lemma roundHalfEven_lower: "y - 1 / 2 \<le> of_int (roundHalfEven y)"
proof -
  have f: "y < of_int \<lfloor>y\<rfloor> + 1" by linarith
  from roundHalfEven_cases [of y] show ?thesis
  proof (elim disjE conjE)
    assume "roundHalfEven y = \<lfloor>y\<rfloor>" and "y - of_int \<lfloor>y\<rfloor> \<le> 1 / 2"
    then show ?thesis by linarith
  next
    assume "roundHalfEven y = \<lfloor>y\<rfloor> + 1"
    with f show ?thesis by (simp only: of_int_add of_int_1)
  qed
qed

lemma roundHalfEven_of_int: "roundHalfEven (of_int k) = k"
  by (simp add: roundHalfEven_def)

lemma floor_le_roundHalfEven: "\<lfloor>y\<rfloor> \<le> roundHalfEven y"
  using roundHalfEven_cases [of y] by auto

lemma roundHalfEven_ge: "of_int k \<le> y \<Longrightarrow> k \<le> roundHalfEven y"
  using floor_le_roundHalfEven [of y] by (simp add: le_floor_iff [symmetric])

lemma roundHalfEven_le:
  assumes "y \<le> of_int k"
  shows "roundHalfEven y \<le> k"
proof (cases "y = of_int k")
  case True
  then show ?thesis by (simp add: roundHalfEven_of_int)
next
  case False
  with assms have "y < of_int k" by simp
  then have "\<lfloor>y\<rfloor> < k" by (simp add: floor_less_iff)
  moreover have "roundHalfEven y \<le> \<lfloor>y\<rfloor> + 1" using roundHalfEven_cases [of y] by auto
  ultimately show ?thesis by linarith
qed

lemma roundHalfEven_unique:
  assumes "\<bar>y - of_int n\<bar> < 1 / 2"
  shows "roundHalfEven y = n"
proof -
  from assms have a: "y - of_int n < 1 / 2" "of_int n - y < 1 / 2"
    by (simp_all only: abs_less_iff) linarith+
  have "(of_int (roundHalfEven y) :: rat) < of_int n + 1"
    using roundHalfEven_upper [of y] a by linarith
  then have "(of_int (roundHalfEven y) :: rat) < of_int (n + 1)"
    by (simp only: of_int_add of_int_1)
  moreover have "(of_int n :: rat) - 1 < of_int (roundHalfEven y)"
    using roundHalfEven_lower [of y] a by linarith
  then have "(of_int (n - 1) :: rat) < of_int (roundHalfEven y)"
    by (simp only: of_int_diff of_int_1)
  ultimately have "roundHalfEven y < n + 1" "n - 1 < roundHalfEven y"
    by (simp_all only: of_int_less_iff)
  then show ?thesis by linarith
qed

lemma ulp_pos: "0 < ulp x"
  by (simp add: ulp_def pow2_pos)

lemma ulp_eq:
  assumes "pow2 e \<le> \<bar>x\<bar>" and "\<bar>x\<bar> < pow2 (e + 1)"
  shows "ulp x = pow2 (max e (- 1022) - 52)"
  using ilog2_unique [OF assms] by (simp add: ulp_def)

lemma pow2_double: "pow2 (e + 1) = 2 * pow2 e"
  using pow2_add [of e 1] by (simp add: pow2_def)

text \<open>Evaluation of a rounding in the finite range, when it is not a tie.\<close>

lemma fl_eval:
  assumes "pow2 e \<le> \<bar>x\<bar>" and "\<bar>x\<bar> < pow2 (e + 1)" and "e \<le> 1022"
    and "u = pow2 (max e (- 1022) - 52)"
    and "\<bar>x / u - of_int n\<bar> < 1 / 2"
  shows "fl x = Fin (of_int n * u)"
proof -
  have x: "x \<noteq> 0" using assms(1) pow2_pos [of e] by auto
  have u: "ulp x = u" using ulp_eq [OF assms(1,2)] assms(4) by simp
  have r: "roundHalfEven (x / u) = n" using assms(5) by (rule roundHalfEven_unique)
  have upos: "0 < u" using ulp_pos [of x] u by simp
  have "\<bar>x - of_int n * u\<bar> = \<bar>x / u - of_int n\<bar> * u"
    using upos by (simp add: abs_mult [symmetric] field_simps del: abs_mult)
  also have "\<dots> < 1 / 2 * u" using assms(5) upos by (simp only: mult_strict_right_mono)
  finally have close: "\<bar>x - of_int n * u\<bar> < u / 2" by simp
  have "u \<le> pow2 970" unfolding assms(4) using assms(3) by (intro pow2_mono) simp
  also have "\<dots> \<le> pow2 1023" by (intro pow2_mono) simp
  finally have ub: "u \<le> pow2 1023" .
  have "pow2 (e + 1) \<le> pow2 1023" using assms(3) by (intro pow2_mono) simp
  with assms(2) have xb: "\<bar>x\<bar> < pow2 1023" by linarith
  have "\<bar>of_int n * u\<bar> < pow2 1023 + pow2 1023" using close ub xb upos by linarith
  also have "\<dots> = pow2 1024" using pow2_double [of 1023] by simp
  finally have "\<not> pow2 1024 \<le> \<bar>of_int n * u\<bar>" by simp
  then show ?thesis using x u r by (simp add: fl_def Let_def)
qed

subsection \<open>Exact values and overflow\<close>

lemma pow2_53: "pow2 53 = 2 ^ 53"
  by (simp add: pow2_def)

lemma ilog2_abs_bounds:
  assumes "x \<noteq> 0"
  shows "pow2 (ilog2 \<bar>x\<bar>) \<le> \<bar>x\<bar>" and "\<bar>x\<bar> < pow2 (ilog2 \<bar>x\<bar> + 1)"
  using ilog2_bounds [of "\<bar>x\<bar>"] assms by simp_all

lemma ilog2_less:
  assumes "x \<noteq> 0" and "\<bar>x\<bar> < pow2 k"
  shows "ilog2 \<bar>x\<bar> < k"
proof (rule ccontr)
  assume "\<not> ilog2 \<bar>x\<bar> < k"
  then have "pow2 k \<le> pow2 (ilog2 \<bar>x\<bar>)" by (simp add: pow2_mono)
  with ilog2_abs_bounds(1) [OF assms(1)] assms(2) show False by linarith
qed

lemma ilog2_ge:
  assumes "pow2 k \<le> \<bar>x\<bar>"
  shows "k \<le> ilog2 \<bar>x\<bar>"
proof (rule ccontr)
  have x: "x \<noteq> 0" using assms pow2_pos [of k] by auto
  assume "\<not> k \<le> ilog2 \<bar>x\<bar>"
  then have "pow2 (ilog2 \<bar>x\<bar> + 1) \<le> pow2 k" by (simp add: pow2_mono)
  with ilog2_abs_bounds(2) [OF x] assms show False by linarith
qed

text \<open>Below \<open>2 ^ 53\<close> the spacing is the inverse of an integer.\<close>

lemma ulp_inverse_int:
  assumes "x \<noteq> 0" and "\<bar>x\<bar> < pow2 53"
  shows "\<exists>K::int. 0 < K \<and> ulp x * of_int K = 1"
proof -
  define m where "m = max (ilog2 \<bar>x\<bar>) (- 1022)"
  have "ilog2 \<bar>x\<bar> < 53" using assms by (rule ilog2_less)
  then have m: "m \<le> 52" by (simp add: m_def)
  have "ulp x * pow2 (52 - m) = pow2 0"
    unfolding ulp_def m_def [symmetric] pow2_add [symmetric] by simp
  moreover have "pow2 (52 - m) = of_int (2 ^ nat (52 - m))"
    using m by (simp add: pow2_nat)
  ultimately have "ulp x * of_int (2 ^ nat (52 - m)) = 1" by (simp add: pow2_0)
  moreover have "(0::int) < 2 ^ nat (52 - m)" by simp
  ultimately show ?thesis by blast
qed

lemma fl_exact:
  assumes "x / ulp x = of_int m" and "\<bar>x\<bar> < pow2 1024"
  shows "fl x = Fin x"
proof (cases "x = 0")
  case True
  then show ?thesis by (simp add: fl_def)
next
  case False
  have "roundHalfEven (x / ulp x) = m"
    by (simp only: assms(1) roundHalfEven_of_int)
  moreover have "x = of_int m * ulp x"
    using ulp_pos [of x] assms(1) by (simp add: field_simps)
  ultimately have "of_int (roundHalfEven (x / ulp x)) * ulp x = x" by simp
  with False assms(2) show ?thesis by (simp add: fl_def Let_def)
qed

lemma pow2_53_le_1024: "pow2 53 \<le> pow2 1024"
  by (rule pow2_mono) simp

text \<open>The integers below \<open>2 ^ 53\<close> in magnitude are binary64 values.\<close>

lemma fl_int:
  assumes "\<bar>n\<bar> < 2 ^ 53"
  shows "fl (of_int n) = Fin (of_int n)"
proof (cases "n = 0")
  case True
  then show ?thesis by (simp add: fl_def)
next
  case False
  define x :: rat where "x = of_int n"
  have x: "x \<noteq> 0" using False by (simp add: x_def)
  have "\<bar>x\<bar> = of_int \<bar>n\<bar>" by (simp add: x_def)
  also have "\<dots> < of_int (2 ^ 53)" using assms by (simp only: of_int_less_iff)
  finally have b: "\<bar>x\<bar> < pow2 53" by (simp add: pow2_53)
  obtain K :: int where K: "0 < K" "ulp x * of_int K = 1"
    using ulp_inverse_int [OF x b] by blast
  have "x / ulp x = x * of_int K"
    using K(2) ulp_pos [of x] by (simp add: field_simps)
  then have "x / ulp x = of_int (n * K)" by (simp add: x_def)
  moreover have "\<bar>x\<bar> < pow2 1024" using b pow2_53_le_1024 by linarith
  ultimately have "fl x = Fin x" by (rule fl_exact)
  then show ?thesis by (simp add: x_def)
qed

text \<open>A value of magnitude \<open>2 ^ 1024\<close> or more overflows.\<close>

lemma fl_overflow:
  assumes "pow2 1024 \<le> x"
  shows "fl x = PInf"
proof -
  have x: "0 < x" using assms pow2_pos [of 1024] by linarith
  define e where "e = ilog2 \<bar>x\<bar>"
  have ax: "\<bar>x\<bar> = x" using x by simp
  have e: "1024 \<le> e" unfolding e_def using assms ax by (intro ilog2_ge) simp
  have lo: "pow2 e \<le> x" using ilog2_abs_bounds(1) [of x] x by (simp add: e_def)
  have u: "ulp x = pow2 (e - 52)" using e by (simp add: ulp_def e_def max_def)
  have "pow2 52 * pow2 (e - 52) = pow2 e" unfolding pow2_add [symmetric] by simp
  then have "of_int (2 ^ 52) * ulp x \<le> x" using lo u by (simp add: pow2_def)
  then have "of_int (2 ^ 52) \<le> x / ulp x" using ulp_pos [of x] by (simp add: field_simps)
  then have "2 ^ 52 \<le> roundHalfEven (x / ulp x)" by (rule roundHalfEven_ge)
  then have "(of_int (2 ^ 52) :: rat) \<le> of_int (roundHalfEven (x / ulp x))"
    by (simp only: of_int_le_iff)
  then have "of_int (2 ^ 52) * ulp x \<le> of_int (roundHalfEven (x / ulp x)) * ulp x"
    using ulp_pos [of x] by (simp only: mult_le_cancel_right_pos)
  moreover have "of_int (2 ^ 52) * ulp x = pow2 e"
    using \<open>pow2 52 * pow2 (e - 52) = pow2 e\<close> u by (simp add: pow2_def)
  moreover have "pow2 1024 \<le> pow2 e" using e by (rule pow2_mono)
  ultimately have "pow2 1024 \<le> of_int (roundHalfEven (x / ulp x)) * ulp x" by linarith
  then have "pow2 1024 \<le> \<bar>of_int (roundHalfEven (x / ulp x)) * ulp x\<bar>" by linarith
  then show ?thesis using x by (simp add: fl_def Let_def)
qed

subsection \<open>Integer quotients\<close>

lemma abs_div_le_abs:
  fixes a b :: int
  assumes "0 < b"
  shows "\<bar>a div b\<bar> \<le> \<bar>a\<bar>"
proof (cases "0 \<le> a")
  case True
  have "a div b \<le> a div 1" using True assms by (intro zdiv_mono2) simp_all
  moreover have "0 \<le> a div b" using True assms by (simp add: pos_imp_zdiv_nonneg_iff)
  ultimately show ?thesis using True by simp
next
  case False
  then have neg: "a < 0" by simp
  have "a div 1 \<le> a div b" using neg assms by (intro zdiv_mono2_neg) simp_all
  moreover have "a div b < 0" using neg assms by (simp add: pos_imp_zdiv_neg_iff)
  ultimately show ?thesis using neg by simp
qed

text \<open>
  The rounded quotient of two integers below \<open>2 ^ 53\<close> lies in the same unit interval
  as the exact quotient: \<^verbatim>\<open>Math.floor(a / b)\<close> is the integer quotient.
\<close>

lemma floor_fl_div:
  fixes a b :: int
  assumes a: "\<bar>a\<bar> < 2 ^ 53" and b: "0 < b" "b \<le> 2 ^ 53"
  shows "\<exists>y. fl (of_int a / of_int b) = Fin y \<and> \<lfloor>y\<rfloor> = a div b"
proof (cases "a mod b = 0")
  case True
  then have "a = (a div b) * b" by (simp add: mod_eq_0_iff_dvd)
  then have "(of_int a :: rat) = of_int ((a div b) * b)" by simp
  then have "(of_int a :: rat) = of_int (a div b) * of_int b" by (simp only: of_int_mult)
  then have q: "(of_int a :: rat) / of_int b = of_int (a div b)" using b by simp
  have "\<bar>a div b\<bar> \<le> \<bar>a\<bar>" using b(1) by (rule abs_div_le_abs)
  then have "\<bar>a div b\<bar> < 2 ^ 53" using a by linarith
  then have "fl (of_int (a div b)) = Fin (of_int (a div b))" by (rule fl_int)
  then show ?thesis unfolding q by simp
next
  case False
  define n where "n = a div b"
  define r where "r = a mod b"
  define q :: rat where "q = of_int a / of_int b"
  have "0 \<le> r" "r < b" using b(1) by (simp_all add: r_def)
  then have r: "0 < r" "r < b" using False by (simp_all add: r_def)
  have anr: "a = n * b + r" by (simp add: n_def r_def)
  have bpos: "(0::rat) < of_int b" using b(1) by simp
  have qn: "q = of_int n + of_int r / of_int b"
    using bpos by (simp add: q_def anr field_simps)
  have rb: "(0::rat) < of_int r / of_int b" "of_int r / of_int b \<le> 1 - 1 / (of_int b :: rat)"
  proof -
    show "(0::rat) < of_int r / of_int b" using r(1) bpos by simp
    have "r + 1 \<le> b" using r(2) by simp
    then have "(of_int (r + 1) :: rat) \<le> of_int b" by (simp only: of_int_le_iff)
    then show "of_int r / of_int b \<le> 1 - 1 / (of_int b :: rat)"
      using bpos by (simp add: field_simps)
  qed
  have a0: "a \<noteq> 0" using False by auto
  have q0: "q \<noteq> 0" using a0 bpos by (simp add: q_def)
  have qa: "\<bar>q\<bar> * of_int b = of_int \<bar>a\<bar>"
    using bpos by (simp add: q_def)
  moreover have "(of_int \<bar>a\<bar> :: rat) < of_int (2 ^ 53)" using a by (simp only: of_int_less_iff)
  ultimately have qb: "\<bar>q\<bar> * of_int b < pow2 53" by (simp add: pow2_53)
  have "(of_int 1 :: rat) \<le> of_int b" using b(1) by (simp only: of_int_le_iff)
  then have "\<bar>q\<bar> * 1 \<le> \<bar>q\<bar> * of_int b" by (intro mult_left_mono) simp_all
  with qb have q53: "\<bar>q\<bar> < pow2 53" by simp
  define e where "e = ilog2 \<bar>q\<bar>"
  have elo: "pow2 e \<le> \<bar>q\<bar>" and ehi: "\<bar>q\<bar> < pow2 (e + 1)"
    using ilog2_abs_bounds [OF q0] by (simp_all add: e_def)
  have "1 \<le> \<bar>a\<bar>" using a0 by simp
  then have "(of_int 1 :: rat) \<le> of_int \<bar>a\<bar>" by (simp only: of_int_le_iff)
  then have "1 \<le> \<bar>q\<bar> * of_int b" using qa by simp
  moreover have "(of_int b :: rat) \<le> of_int (2 ^ 53)" using b(2) by (simp only: of_int_le_iff)
  then have "\<bar>q\<bar> * of_int b \<le> \<bar>q\<bar> * pow2 53"
    by (intro mult_left_mono) (simp_all add: pow2_53)
  ultimately have "1 \<le> \<bar>q\<bar> * pow2 53" by linarith
  moreover have "pow2 (- 53) * pow2 53 = 1" unfolding pow2_add [symmetric] by (simp add: pow2_0)
  ultimately have "pow2 (- 53) * pow2 53 \<le> \<bar>q\<bar> * pow2 53" by simp
  then have "pow2 (- 53) \<le> \<bar>q\<bar>" using pow2_pos [of 53] by (simp only: mult_le_cancel_right_pos)
  then have "- 53 \<le> e" unfolding e_def by (rule ilog2_ge)
  then have u: "ulp q = pow2 (e - 52)" by (simp add: ulp_def e_def [symmetric] max_def)
  obtain K :: int where K: "0 < K" "ulp q * of_int K = 1"
    using ulp_inverse_int [OF q0 q53] by blast
  have Kpos: "(0::rat) < of_int K" using K(1) by simp
  define z where "z = q / ulp q"
  have z: "z = q * of_int K" using K(2) ulp_pos [of q] by (simp add: z_def field_simps)
  define y where "y = of_int (roundHalfEven z) * ulp q"
  have scale: "of_int (m * K) * ulp q = (of_int m :: rat)" for m
  proof -
    have "of_int (m * K) * ulp q = of_int m * (ulp q * of_int K)"
      by (simp only: of_int_mult mult_ac)
    then show ?thesis by (simp only: K(2) mult_1_right)
  qed
  text \<open>The spacing at the quotient is less than \<open>2 / b\<close>.\<close>
  have "pow2 e * of_int b \<le> \<bar>q\<bar> * of_int b"
    using elo bpos by (simp only: mult_le_cancel_right_pos)
  with qb have "pow2 e * of_int b < pow2 53" by linarith
  then have "pow2 (- 52) * (pow2 e * of_int b) < pow2 (- 52) * pow2 53"
    using pow2_pos [of "- 52"] by (simp only: mult_less_cancel_left_pos)
  moreover have "pow2 (- 52) * pow2 e = ulp q" unfolding u pow2_add [symmetric] by simp
  moreover have "pow2 (- 52) * pow2 53 = 2" unfolding pow2_add [symmetric] by (simp add: pow2_def)
  ultimately have ub: "ulp q * of_int b < 2" by (simp add: mult.assoc [symmetric])
  have "(of_int b :: rat) < 2 * of_int K"
  proof -
    have "ulp q * of_int b < 2 * (ulp q * of_int K)" using ub K(2) by simp
    then have "ulp q * of_int b < ulp q * (2 * of_int K)" by (simp add: mult_ac)
    then show ?thesis using ulp_pos [of q] by (simp only: mult_less_cancel_left_pos)
  qed
  then have gap: "1 / 2 < of_int K / (of_int b :: rat)" using bpos by (simp add: field_simps)
  text \<open>From below.\<close>
  have "of_int n \<le> q" using qn rb(1) by linarith
  then have "of_int n * of_int K \<le> z" unfolding z using Kpos by (simp only: mult_le_cancel_right_pos)
  then have "of_int (n * K) \<le> z" by simp
  then have "n * K \<le> roundHalfEven z" by (rule roundHalfEven_ge)
  then have "(of_int (n * K) :: rat) \<le> of_int (roundHalfEven z)" by (simp only: of_int_le_iff)
  then have "of_int (n * K) * ulp q \<le> y"
    unfolding y_def using ulp_pos [of q] by (simp only: mult_le_cancel_right_pos)
  then have ylo: "of_int n \<le> y" by (simp only: scale)
  text \<open>From above.\<close>
  have "z = of_int n * of_int K + (of_int r / of_int b) * of_int K"
    unfolding z qn by (simp add: algebra_simps)
  also have "\<dots> \<le> of_int n * of_int K + (1 - 1 / of_int b) * of_int K"
    using rb(2) Kpos by (simp only: add_le_cancel_left mult_le_cancel_right_pos)
  also have "\<dots> = of_int ((n + 1) * K) - of_int K / of_int b"
    by (simp add: algebra_simps)
  finally have "z + 1 / 2 < of_int ((n + 1) * K)" using gap by linarith
  then have "(of_int (roundHalfEven z) :: rat) < of_int ((n + 1) * K)"
    using roundHalfEven_upper [of z] by linarith
  then have "of_int (roundHalfEven z) * ulp q < of_int ((n + 1) * K) * ulp q"
    using ulp_pos [of q] by (simp only: mult_less_cancel_right_pos)
  then have yhi: "y < of_int (n + 1)" unfolding y_def [symmetric] by (simp only: scale)
  have fl: "\<lfloor>y\<rfloor> = n" using ylo yhi by (simp add: floor_unique)
  have "\<bar>n\<bar> \<le> \<bar>a\<bar>" unfolding n_def using b(1) by (rule abs_div_le_abs)
  with a have "- (2 ^ 53) < n" "n + 1 \<le> 2 ^ 53" by linarith+
  then have "(of_int (- (2 ^ 53)) :: rat) < of_int n" "(of_int (n + 1) :: rat) \<le> of_int (2 ^ 53)"
    by (simp_all only: of_int_less_iff of_int_le_iff)
  with ylo yhi have "\<bar>y\<bar> < 2 ^ 53 + 1" by simp
  moreover have "(2 ^ 53 + 1 :: rat) \<le> pow2 1024"
  proof -
    have "(2 ^ 53 + 1 :: rat) \<le> pow2 54" by (simp add: pow2_def)
    also have "\<dots> \<le> pow2 1024" by (rule pow2_mono) simp
    finally show ?thesis .
  qed
  ultimately have "\<not> pow2 1024 \<le> \<bar>y\<bar>" by linarith
  then have "fl q = Fin y" using q0 by (simp add: fl_def Let_def y_def z_def)
  with fl show ?thesis by (simp add: q_def n_def)
qed


section \<open>The arithmetic of whole amounts\<close>

lemma Math_floor_div_int:
  fixes a b :: int
  assumes "\<bar>a\<bar> < 2 ^ 53" and "0 < b" and "b \<le> 2 ^ 53"
  shows "Math_floor (jsdiv (Fin (of_int a)) (Fin (of_int b))) = Fin (of_int (a div b))"
proof -
  obtain y where "fl (of_int a / of_int b) = Fin y" "\<lfloor>y\<rfloor> = a div b"
    using floor_fl_div [OF assms] by blast
  then show ?thesis using assms(2) by simp
qed

lemma jsmul_int:
  fixes a b :: int
  assumes "\<bar>a * b\<bar> < 2 ^ 53"
  shows "jsmul (Fin (of_int a)) (Fin (of_int b)) = Fin (of_int (a * b))"
  using fl_int [OF assms] by simp

lemma jssub_int:
  fixes a b :: int
  assumes "\<bar>a - b\<bar> < 2 ^ 53"
  shows "jssub (Fin (of_int a)) (Fin (of_int b)) = Fin (of_int (a - b))"
  using fl_int [OF assms] by simp

lemma Math_round_int: "Math_round (Fin (of_int r)) = Fin (of_int r)"
proof -
  have "\<lfloor>(of_int r :: rat) + 1 / 2\<rfloor> = r" by (rule floor_unique) simp_all
  then show ?thesis by simp
qed





text \<open>\<^verbatim>\<open>Math.round\<close> moves a value by at most one half.\<close>

lemma Math_round_near:
  "\<bar>of_int \<lfloor>t + 1 / 2\<rfloor> - t\<bar> \<le> (1 / 2 :: rat)"
proof -
  have "of_int \<lfloor>t + 1 / 2\<rfloor> \<le> t + 1 / 2" by (rule of_int_floor_le)
  moreover have "t + 1 / 2 < of_int \<lfloor>t + 1 / 2\<rfloor> + 1" by linarith
  ultimately show ?thesis by linarith
qed

section \<open>The rounding function\<close>

text \<open>
  Rounding commutes with negation and is monotone, so a value between two values of the
  format rounds to a value between them; the error of a rounding is at most half the spacing.
\<close>

lemma roundHalfEven_0: "roundHalfEven 0 = 0"
  using roundHalfEven_of_int [of 0] by simp

lemma rnd_0: "rnd 0 = 0"
  by (simp add: rnd_def roundHalfEven_0)

lemma fl_rnd:
  "fl x = (if pow2 1024 \<le> \<bar>rnd x\<bar> then (if 0 < x then PInf else NInf) else Fin (rnd x))"
proof (cases "x = 0")
  case True
  then show ?thesis using pow2_pos [of 1024] by (simp add: fl_def rnd_0)
next
  case False
  then show ?thesis by (simp add: fl_def rnd_def Let_def)
qed

lemma fl_finite: "\<bar>rnd x\<bar> < pow2 1024 \<Longrightarrow> fl x = Fin (rnd x)"
  by (simp add: fl_rnd)

lemma roundHalfEven_tie:
  "roundHalfEven (of_int f + 1 / 2) = (if even f then f else f + 1)"
proof -
  have "\<lfloor>(of_int f :: rat) + 1 / 2\<rfloor> = f" by (rule floor_unique) simp_all
  then show ?thesis by (simp add: roundHalfEven_def Let_def)
qed

lemma roundHalfEven_neg: "roundHalfEven (- y) = - roundHalfEven y"
proof (cases "\<exists>n. \<bar>y - of_int n\<bar> < 1 / 2")
  case True
  then obtain n where n: "\<bar>y - of_int n\<bar> < 1 / 2" by blast
  have "- y - of_int (- n) = - (y - of_int n)" by simp
  then have "\<bar>- y - of_int (- n)\<bar> = \<bar>y - of_int n\<bar>" by (simp only: abs_minus)
  with n have "\<bar>- y - of_int (- n)\<bar> < 1 / 2" by simp
  then have "roundHalfEven (- y) = - n" by (rule roundHalfEven_unique)
  moreover have "roundHalfEven y = n" using n by (rule roundHalfEven_unique)
  ultimately show ?thesis by simp
next
  case False
  define f where "f = \<lfloor>y\<rfloor>"
  have lo: "of_int f \<le> y" and hi: "y < of_int f + 1" unfolding f_def by linarith+
  have "\<not> \<bar>y - of_int f\<bar> < 1 / 2" "\<not> \<bar>y - of_int (f + 1)\<bar> < 1 / 2" using False by blast+
  then have y: "y = of_int f + 1 / 2" using lo hi by (simp add: abs_less_iff)
  have "- y = of_int (- f - 1) + 1 / 2" unfolding y by simp
  then have "roundHalfEven (- y) = (if even (- f - 1) then - f - 1 else - f - 1 + 1)"
    by (simp only: roundHalfEven_tie)
  moreover have "roundHalfEven y = (if even f then f else f + 1)"
    unfolding y by (rule roundHalfEven_tie)
  ultimately show ?thesis by simp
qed

lemma roundHalfEven_mono:
  assumes "x \<le> y"
  shows "roundHalfEven x \<le> roundHalfEven y"
proof (cases "\<lfloor>x\<rfloor> < \<lfloor>y\<rfloor>")
  case True
  have "roundHalfEven x \<le> \<lfloor>x\<rfloor> + 1" using roundHalfEven_cases [of x] by auto
  also have "\<dots> \<le> \<lfloor>y\<rfloor>" using True by simp
  also have "\<dots> \<le> roundHalfEven y" by (rule floor_le_roundHalfEven)
  finally show ?thesis .
next
  case False
  moreover have "\<lfloor>x\<rfloor> \<le> \<lfloor>y\<rfloor>" using assms by (rule floor_mono)
  ultimately have eq: "\<lfloor>x\<rfloor> = \<lfloor>y\<rfloor>" by simp
  have "x - of_int \<lfloor>y\<rfloor> \<le> y - of_int \<lfloor>y\<rfloor>" using assms by simp
  then show ?thesis by (auto simp add: roundHalfEven_def Let_def eq)
qed

lemma ulp_neg: "ulp (- x) = ulp x"
  by (simp add: ulp_def)

lemma rnd_neg: "rnd (- x) = - rnd x"
  by (simp add: rnd_def ulp_neg roundHalfEven_neg)

lemma fl_neg: "fl (- x) = jsneg (fl x)"
proof (cases "x = 0")
  case True
  then show ?thesis by (simp add: fl_def)
next
  case False
  then show ?thesis by (simp add: fl_rnd rnd_neg)
qed

lemma rnd_le_grid:
  assumes "x \<le> g" and "g / ulp x = of_int j"
  shows "rnd x \<le> g"
proof -
  have u: "0 < ulp x" by (rule ulp_pos)
  have "x / ulp x \<le> of_int j" using assms u by (simp add: divide_right_mono flip: assms(2))
  then have "roundHalfEven (x / ulp x) \<le> j" by (rule roundHalfEven_le)
  then have "(of_int (roundHalfEven (x / ulp x)) :: rat) \<le> of_int j" by (simp only: of_int_le_iff)
  then have "rnd x \<le> of_int j * ulp x" unfolding rnd_def using u by (simp only: mult_right_mono less_imp_le)
  also have "\<dots> = g" using u assms(2) by (simp add: field_simps)
  finally show ?thesis .
qed

lemma rnd_ge_grid:
  assumes "g \<le> x" and "g / ulp x = of_int j"
  shows "g \<le> rnd x"
proof -
  have u: "0 < ulp x" by (rule ulp_pos)
  have "of_int j \<le> x / ulp x" using assms u by (simp add: divide_right_mono flip: assms(2))
  then have "j \<le> roundHalfEven (x / ulp x)" by (rule roundHalfEven_ge)
  then have "(of_int j :: rat) \<le> of_int (roundHalfEven (x / ulp x))" by (simp only: of_int_le_iff)
  then have "of_int j * ulp x \<le> rnd x" unfolding rnd_def using u by (simp only: mult_right_mono less_imp_le)
  moreover have "of_int j * ulp x = g" using u assms(2) by (simp add: field_simps)
  ultimately show ?thesis by simp
qed

lemma rnd_nonneg: "0 \<le> x \<Longrightarrow> 0 \<le> rnd x"
  using rnd_ge_grid [of 0 x 0] by simp

lemma rnd_nonpos: "x \<le> 0 \<Longrightarrow> rnd x \<le> 0"
  using rnd_le_grid [of x 0 0] by simp

lemma ilog2_mono:
  assumes "0 < x" and "x \<le> y"
  shows "ilog2 x \<le> ilog2 y"
proof (rule ccontr)
  assume "\<not> ilog2 x \<le> ilog2 y"
  then have "pow2 (ilog2 y + 1) \<le> pow2 (ilog2 x)" by (simp add: pow2_mono)
  moreover have "pow2 (ilog2 x) \<le> x" using assms(1) by (rule ilog2_bounds)
  moreover have "y < pow2 (ilog2 y + 1)" using assms by (intro ilog2_bounds) simp
  ultimately show False using assms(2) by linarith
qed

lemma pow2_int: "0 \<le> e \<Longrightarrow> \<exists>j::int. pow2 e = of_int j"
  using pow2_nat by blast

lemma rnd_mono_pos:
  assumes "0 < x" and "x \<le> y"
  shows "rnd x \<le> rnd y"
proof -
  have y: "0 < y" using assms by simp
  define e1 where "e1 = ilog2 x"
  define e2 where "e2 = ilog2 y"
  have e12: "e1 \<le> e2" unfolding e1_def e2_def using assms by (rule ilog2_mono)
  have ux: "ulp x = pow2 (max e1 (- 1022) - 52)" using assms(1) by (simp add: ulp_def e1_def)
  have uy: "ulp y = pow2 (max e2 (- 1022) - 52)" using y by (simp add: ulp_def e2_def)
  show ?thesis
  proof (cases "max e1 (- 1022) = max e2 (- 1022)")
    case True
    then have u: "ulp y = ulp x" using ux uy by simp
    have "x / ulp x \<le> y / ulp x" using assms(2) ulp_pos [of x] by (simp add: divide_right_mono)
    then have "roundHalfEven (x / ulp x) \<le> roundHalfEven (y / ulp x)" by (rule roundHalfEven_mono)
    then have "(of_int (roundHalfEven (x / ulp x)) :: rat) \<le> of_int (roundHalfEven (y / ulp x))"
      by (simp only: of_int_le_iff)
    then show ?thesis unfolding rnd_def u using ulp_pos [of x]
      by (simp only: mult_right_mono less_imp_le)
  next
    case False
    with e12 have lt: "e1 < e2" and big: "- 1022 < e2" by auto
    define g where "g = pow2 e2"
    have "x < pow2 (e1 + 1)" unfolding e1_def using assms(1) by (rule ilog2_bounds)
    also have "\<dots> \<le> g" unfolding g_def using lt by (intro pow2_mono) simp
    finally have xg: "x \<le> g" by simp
    have gy: "g \<le> y" unfolding g_def e2_def using y by (rule ilog2_bounds)
    have "g / ulp x = pow2 (e2 - (max e1 (- 1022) - 52))" unfolding g_def ux by (simp only: pow2_diff)
    moreover have "0 \<le> e2 - (max e1 (- 1022) - 52)" using lt big by simp
    ultimately obtain j :: int where j: "g / ulp x = of_int j" using pow2_int by metis
    have "g / ulp y = pow2 (e2 - (max e2 (- 1022) - 52))" unfolding g_def uy by (simp only: pow2_diff)
    moreover have "0 \<le> e2 - (max e2 (- 1022) - 52)" using big by simp
    ultimately obtain k :: int where k: "g / ulp y = of_int k" using pow2_int by metis
    have "rnd x \<le> g" using xg j by (rule rnd_le_grid)
    also have "g \<le> rnd y" using gy k by (rule rnd_ge_grid)
    finally show ?thesis .
  qed
qed

lemma rnd_mono:
  assumes "x \<le> y"
  shows "rnd x \<le> rnd y"
proof -
  consider "0 < x" | "x \<le> 0" "0 \<le> y" | "y < 0" using assms by linarith
  then show ?thesis
  proof cases
    case 1
    then show ?thesis using assms by (rule rnd_mono_pos)
  next
    case 2
    then show ?thesis using rnd_nonpos [of x] rnd_nonneg [of y] by linarith
  next
    case 3
    then have "0 < - y" "- y \<le> - x" using assms by simp_all
    then have "rnd (- y) \<le> rnd (- x)" by (rule rnd_mono_pos)
    then show ?thesis by (simp add: rnd_neg)
  qed
qed


lemma double_0: "double 0"
  by (simp add: double_def fl_def)

lemma double_neg: "double (- x) = double x"
  by (cases "fl x") (simp_all add: double_def fl_neg)

lemma double_rnd: "double x \<Longrightarrow> rnd x = x"
  by (simp add: double_def fl_rnd split: if_splits)

lemma double_less: "double x \<Longrightarrow> \<bar>x\<bar> < pow2 1024"
  by (simp add: double_def fl_rnd split: if_splits)

lemma rnd_ge_double: "double lo \<Longrightarrow> lo \<le> x \<Longrightarrow> lo \<le> rnd x"
  using rnd_mono [of lo x] by (simp add: double_rnd)

lemma rnd_le_double: "double hi \<Longrightarrow> x \<le> hi \<Longrightarrow> rnd x \<le> hi"
  using rnd_mono [of x hi] by (simp add: double_rnd)

lemma fl_between:
  assumes "double lo" and "double hi" and "lo \<le> x" and "x \<le> hi"
  shows "fl x = Fin (rnd x)" and "lo \<le> rnd x" and "rnd x \<le> hi"
proof -
  show lo: "lo \<le> rnd x" using assms(1,3) by (rule rnd_ge_double)
  show hi: "rnd x \<le> hi" using assms(2,4) by (rule rnd_le_double)
  have "\<bar>lo\<bar> < pow2 1024" "\<bar>hi\<bar> < pow2 1024" using assms(1,2) by (simp_all add: double_less)
  with lo hi have "\<bar>rnd x\<bar> < pow2 1024" by linarith
  then show "fl x = Fin (rnd x)" by (rule fl_finite)
qed

lemma ulp_le_pow2:
  assumes "x \<noteq> 0" and "\<bar>x\<bar> < pow2 k" and "- 1021 \<le> k"
  shows "ulp x \<le> pow2 (k - 53)"
proof -
  have "ilog2 \<bar>x\<bar> < k" using assms(1,2) by (rule ilog2_less)
  then have "max (ilog2 \<bar>x\<bar>) (- 1022) - 52 \<le> k - 53" using assms(3) by simp
  then show ?thesis unfolding ulp_def by (rule pow2_mono)
qed

lemma ulp_gt:
  assumes "x \<noteq> 0"
  shows "\<bar>x\<bar> * pow2 (- 53) < ulp x"
proof -
  have "\<bar>x\<bar> < pow2 (ilog2 \<bar>x\<bar> + 1)" using assms by (rule ilog2_abs_bounds)
  then have "\<bar>x\<bar> * pow2 (- 53) < pow2 (ilog2 \<bar>x\<bar> + 1) * pow2 (- 53)"
    using pow2_pos [of "- 53"] by (simp only: mult_strict_right_mono)
  also have "\<dots> = pow2 (ilog2 \<bar>x\<bar> - 52)" by (simp add: pow2_add [symmetric])
  also have "\<dots> \<le> ulp x" unfolding ulp_def by (rule pow2_mono) simp
  finally show ?thesis .
qed

lemma ulp_normal:
  assumes "pow2 (- 1022) \<le> \<bar>x\<bar>"
  shows "ulp x \<le> \<bar>x\<bar> * pow2 (- 52)"
proof -
  have x: "x \<noteq> 0" using assms pow2_pos [of "- 1022"] by auto
  have "- 1022 \<le> ilog2 \<bar>x\<bar>" using assms by (rule ilog2_ge)
  then have "ulp x = pow2 (ilog2 \<bar>x\<bar> + - 52)" by (simp add: ulp_def max_def)
  also have "\<dots> = pow2 (ilog2 \<bar>x\<bar>) * pow2 (- 52)" by (rule pow2_add)
  also have "\<dots> \<le> \<bar>x\<bar> * pow2 (- 52)"
    using ilog2_abs_bounds(1) [OF x] pow2_pos [of "- 52"] by (simp only: mult_right_mono less_imp_le)
  finally show ?thesis .
qed

lemma ulp_subnormal:
  assumes "x \<noteq> 0" and "\<bar>x\<bar> < pow2 (- 1022)"
  shows "ulp x = pow2 (- 1074)"
proof -
  have "ilog2 \<bar>x\<bar> < - 1022" using assms by (rule ilog2_less)
  then show ?thesis by (simp add: ulp_def max_def)
qed

lemma rnd_error: "\<bar>rnd x - x\<bar> \<le> ulp x / 2"
proof -
  define u where "u = ulp x"
  define z where "z = x / u"
  define k where "k = roundHalfEven z"
  have u: "0 < u" unfolding u_def by (rule ulp_pos)
  have x: "x = z * u" using u by (simp add: z_def)
  have "of_int k \<le> z + 1 / 2" "z - 1 / 2 \<le> of_int k"
    unfolding k_def by (rule roundHalfEven_upper, rule roundHalfEven_lower)
  then have "of_int k * u \<le> (z + 1 / 2) * u" "(z - 1 / 2) * u \<le> of_int k * u"
    using u by (simp_all only: mult_right_mono less_imp_le)
  then have "of_int k * u \<le> x + u / 2" "x - u / 2 \<le> of_int k * u"
    unfolding x by (simp_all add: algebra_simps)
  moreover have "rnd x = of_int k * u" by (simp add: rnd_def k_def z_def u_def)
  ultimately show ?thesis unfolding u_def by linarith
qed

lemma rnd_error_rel: "\<bar>rnd x - x\<bar> \<le> \<bar>x\<bar> * pow2 (- 53) + pow2 (- 1075)"
proof (cases "x = 0")
  case True
  then show ?thesis using pow2_pos [of "- 1075"] by (simp add: rnd_0)
next
  case False
  have h53: "pow2 (- 53) = pow2 (- 52) / 2" and h1075: "pow2 (- 1075) = pow2 (- 1074) / 2"
    using pow2_double [of "- 53"] pow2_double [of "- 1075"] by simp_all
  have p: "0 \<le> \<bar>x\<bar> * pow2 (- 52)" "0 < pow2 (- 1074)"
    using pow2_pos [of "- 52"] pow2_pos [of "- 1074"] by simp_all
  have "ulp x \<le> \<bar>x\<bar> * pow2 (- 52) + pow2 (- 1074)"
  proof (cases "pow2 (- 1022) \<le> \<bar>x\<bar>")
    case True
    then show ?thesis using ulp_normal [of x] p by linarith
  next
    case normal: False
    then show ?thesis using ulp_subnormal [of x] False p by simp
  qed
  then show ?thesis using rnd_error [of x] unfolding h53 h1075 by (simp add: field_simps)
qed

lemma rnd_error_quarter:
  assumes "\<bar>x\<bar> < 2 ^ 52"
  shows "\<bar>rnd x - x\<bar> \<le> 1 / 4"
proof (cases "x = 0")
  case True
  then show ?thesis by (simp add: rnd_0)
next
  case False
  have "\<bar>x\<bar> < pow2 52" using assms by (simp add: pow2_def)
  with False have "ulp x \<le> pow2 (52 - 53)" by (rule ulp_le_pow2) simp
  then have "ulp x \<le> 1 / 2" by (simp add: pow2_def)
  then show ?thesis using rnd_error [of x] by linarith
qed

text \<open>The values of the format: an integer of at most 53 bits times a power of two.\<close>

lemma double_grid:
  assumes j: "\<bar>j\<bar> \<le> 2 ^ 53" and c: "- 1074 \<le> c" and b: "\<bar>of_int j * pow2 c\<bar> < pow2 1024"
  shows "double (of_int j * pow2 c)"
proof (cases "j = 0")
  case True
  then show ?thesis by (simp add: double_0)
next
  case False
  define y where "y = of_int j * pow2 c"
  have y: "y \<noteq> 0" using False pow2_pos [of c] by (simp add: y_def)
  define e where "e = ilog2 \<bar>y\<bar>"
  have u: "ulp y = pow2 (max e (- 1022) - 52)" by (simp add: ulp_def e_def)
  have "\<exists>k::int. y / ulp y = of_int k"
  proof (cases "max e (- 1022) - 52 \<le> c")
    case True
    then obtain i :: int where i: "pow2 (c - (max e (- 1022) - 52)) = of_int i"
      using pow2_int [of "c - (max e (- 1022) - 52)"] by auto
    have "y / ulp y = of_int j * (pow2 c / pow2 (max e (- 1022) - 52))"
      unfolding u by (simp add: y_def)
    also have "\<dots> = of_int j * of_int i" by (simp only: pow2_diff [symmetric] i)
    finally have "y / ulp y = of_int (j * i)" by simp
    then show ?thesis by blast
  next
    case small: False
    then have ee: "max e (- 1022) = e" and ec: "c + 53 \<le> e" using c by auto
    have "pow2 e \<le> \<bar>y\<bar>" unfolding e_def using y by (rule ilog2_abs_bounds)
    moreover have "\<bar>y\<bar> = of_int \<bar>j\<bar> * pow2 c" using pow2_pos [of c] by (simp add: y_def abs_mult)
    moreover have "(of_int \<bar>j\<bar> :: rat) \<le> of_int (2 ^ 53)" using j by (simp only: of_int_le_iff)
    then have "of_int \<bar>j\<bar> * pow2 c \<le> of_int (2 ^ 53) * pow2 c"
      using pow2_pos [of c] by (simp only: mult_right_mono less_imp_le)
    moreover have "of_int (2 ^ 53) * pow2 c = pow2 (53 + c)"
      by (simp only: pow2_add) (simp add: pow2_def)
    moreover have "pow2 (53 + c) \<le> pow2 e" using ec by (intro pow2_mono) simp
    ultimately have abs: "\<bar>y\<bar> = pow2 e" by linarith
    have "pow2 e / ulp y = pow2 (e - (e - 52))" unfolding u ee by (simp only: pow2_diff)
    then have "pow2 e / ulp y = of_int (2 ^ 52)" by (simp add: pow2_def)
    moreover from abs have "y = pow2 e \<or> y = - pow2 e" by (simp add: abs_if split: if_splits)
    ultimately have "y / ulp y = of_int (2 ^ 52) \<or> y / ulp y = of_int (- (2 ^ 52))" by auto
    then show ?thesis by blast
  qed
  then obtain k :: int where "y / ulp y = of_int k" by blast
  moreover have "\<bar>y\<bar> < pow2 1024" using b by (simp add: y_def)
  ultimately have "fl y = Fin y" by (rule fl_exact)
  then show ?thesis by (simp add: double_def y_def)
qed

lemma pow2_le_1024: "e \<le> 1024 \<Longrightarrow> pow2 e \<le> pow2 1024"
  by (rule pow2_mono)

lemma double_int:
  assumes "\<bar>n\<bar> \<le> 2 ^ 53"
  shows "double (of_int n)"
proof -
  have "(of_int \<bar>n\<bar> :: rat) \<le> of_int (2 ^ 53)" using assms by (simp only: of_int_le_iff)
  then have "\<bar>of_int n :: rat\<bar> \<le> pow2 53" by (simp add: pow2_53)
  also have "pow2 53 < pow2 1024" by (rule pow2_strict_mono) simp
  finally have "\<bar>of_int n * pow2 0\<bar> < pow2 1024" by (simp add: pow2_0)
  with assms have "double (of_int n * pow2 0)" by (intro double_grid) simp_all
  then show ?thesis by (simp add: pow2_0)
qed

lemma double_half_int:
  assumes "\<bar>n\<bar> \<le> 2 ^ 53"
  shows "double (of_int n / 2)"
proof -
  have "(of_int \<bar>n\<bar> :: rat) \<le> of_int (2 ^ 53)" using assms by (simp only: of_int_le_iff)
  then have "\<bar>of_int n :: rat\<bar> \<le> pow2 53" by (simp add: pow2_53)
  also have "pow2 53 < pow2 1024" by (rule pow2_strict_mono) simp
  finally have "\<bar>of_int n * pow2 (- 1)\<bar> < pow2 1024" by (simp add: pow2_def)
  with assms have "double (of_int n * pow2 (- 1))" by (intro double_grid) simp_all
  then show ?thesis by (simp add: pow2_def)
qed

lemma double_mantissa:
  assumes "double b" and "b \<noteq> 0"
  shows "\<exists>k::int. b = of_int k * ulp b \<and> \<bar>k\<bar> < 2 ^ 53"
proof -
  define k where "k = roundHalfEven (b / ulp b)"
  have b: "b = of_int k * ulp b" using double_rnd [OF assms(1)] by (simp add: rnd_def k_def)
  have u: "0 < ulp b" by (rule ulp_pos)
  have "\<bar>b\<bar> * pow2 (- 53) < ulp b" using assms(2) by (rule ulp_gt)
  moreover have "\<bar>b\<bar> = of_int \<bar>k\<bar> * ulp b" using u by (subst b) (simp add: abs_mult)
  ultimately have "of_int \<bar>k\<bar> * pow2 (- 53) * ulp b < 1 * ulp b" by (simp add: mult.commute mult.left_commute)
  then have "of_int \<bar>k\<bar> * pow2 (- 53) < 1" using u by (simp only: mult_less_cancel_right_pos)
  then have "(of_int \<bar>k\<bar> :: rat) < of_int (2 ^ 53)" by (simp add: pow2_def field_simps)
  then have "\<bar>k\<bar> < 2 ^ 53" by (simp only: of_int_less_iff)
  with b show ?thesis by blast
qed

lemma ulp_exponent: "\<exists>c. ulp x = pow2 c \<and> - 1074 \<le> c"
  by (rule exI [of _ "max (ilog2 \<bar>x\<bar>) (- 1022) - 52"]) (simp add: ulp_def)

lemma double_successor:
  assumes "double b" and "b \<noteq> 0" and "\<bar>b\<bar> < 2 ^ 53"
  shows "double (b + ulp b)"
proof -
  obtain k :: int where k: "b = of_int k * ulp b" "\<bar>k\<bar> < 2 ^ 53"
    using double_mantissa [OF assms(1,2)] by blast
  obtain c where c: "ulp b = pow2 c" "- 1074 \<le> c" using ulp_exponent by blast
  have "\<bar>b\<bar> < pow2 53" using assms(3) by (simp add: pow2_53)
  with assms(2) have "ulp b \<le> pow2 (53 - 53)" by (rule ulp_le_pow2) simp
  then have u1: "ulp b \<le> 1" by (simp add: pow2_0)
  have s: "b + ulp b = of_int (k + 1) * pow2 c" by (subst k(1)) (simp add: c(1) algebra_simps)
  have "\<bar>b + ulp b\<bar> \<le> 2 ^ 53 + 1" using assms(3) u1 ulp_pos [of b] by linarith
  also have "\<dots> < (2::rat) ^ 1024" by simp
  finally have "\<bar>of_int (k + 1) * pow2 c\<bar> < pow2 1024" unfolding s by (simp add: pow2_def)
  moreover have "\<bar>k + 1\<bar> \<le> 2 ^ 53" using k(2) by linarith
  ultimately have "double (of_int (k + 1) * pow2 c)" using c(2) by (intro double_grid)
  then show ?thesis by (simp only: s)
qed

lemma double_twice:
  assumes "double x" and "\<bar>x\<bar> < pow2 1023"
  shows "double (2 * x)"
proof (cases "x = 0")
  case True
  then show ?thesis by (simp add: double_0)
next
  case False
  obtain k :: int where k: "x = of_int k * ulp x" "\<bar>k\<bar> < 2 ^ 53"
    using double_mantissa [OF assms(1) False] by blast
  obtain c where c: "ulp x = pow2 c" "- 1074 \<le> c" using ulp_exponent by blast
  have s: "2 * x = of_int k * pow2 (c + 1)" by (subst k(1)) (simp add: c(1) pow2_double)
  have "\<bar>2 * x\<bar> < 2 * pow2 1023" using assms(2) by simp
  then have "\<bar>of_int k * pow2 (c + 1)\<bar> < pow2 1024"
    unfolding s using pow2_double [of 1023] by simp
  moreover have "\<bar>k\<bar> \<le> 2 ^ 53" using k(2) by simp
  moreover have "- 1074 \<le> c + 1" using c(2) by simp
  ultimately have "double (of_int k * pow2 (c + 1))" by (intro double_grid)
  then show ?thesis by (simp only: s)
qed

lemma double_abs: "double x \<Longrightarrow> double \<bar>x\<bar>"
  by (simp add: abs_if double_neg)

lemma rnd_eq_0:
  assumes "rnd x = 0"
  shows "\<bar>x\<bar> \<le> pow2 (- 1075)"
proof (cases "x = 0")
  case True
  then show ?thesis using pow2_pos [of "- 1075"] by simp
next
  case False
  have e: "\<bar>x\<bar> \<le> ulp x / 2" using rnd_error [of x] assms by simp
  have "\<not> pow2 (- 1022) \<le> \<bar>x\<bar>"
  proof
    assume "pow2 (- 1022) \<le> \<bar>x\<bar>"
    then have "ulp x \<le> \<bar>x\<bar> * pow2 (- 52)" by (rule ulp_normal)
    then have "ulp x \<le> \<bar>x\<bar> / 2 ^ 52" by (simp add: pow2_def)
    with e False show False by (simp add: field_simps)
  qed
  with False have "ulp x = pow2 (- 1074)" by (intro ulp_subnormal) simp_all
  then show ?thesis using e pow2_double [of "- 1075"] by simp
qed

lemma rnd_negative:
  assumes "x < - pow2 (- 1075)"
  shows "rnd x < 0"
proof (cases "x \<le> - pow2 (- 1074)")
  case True
  have "\<bar>of_int (- 1) * pow2 (- 1074)\<bar> < pow2 1024"
    using pow2_strict_mono [of "- 1074" 1024] pow2_pos [of "- 1074"] by simp
  then have "double (of_int (- 1) * pow2 (- 1074))" by (intro double_grid) simp_all
  then have "double (- pow2 (- 1074))" by simp
  then have "rnd x \<le> - pow2 (- 1074)" using True by (rule rnd_le_double)
  then show ?thesis using pow2_pos [of "- 1074"] by linarith
next
  case False
  have p: "0 < pow2 (- 1075)" by (rule pow2_pos)
  have h: "pow2 (- 1074) = 2 * pow2 (- 1075)" using pow2_double [of "- 1075"] by simp
  have x: "x \<noteq> 0" using assms p by auto
  have "\<bar>x\<bar> < pow2 (- 1074)" using False assms p by (simp add: abs_if)
  also have "\<dots> < pow2 (- 1022)" by (rule pow2_strict_mono) simp
  finally have u: "ulp x = pow2 (- 1074)" using x by (intro ulp_subnormal)
  define z where "z = x / pow2 (- 1075)"
  have z: "x = z * pow2 (- 1075)" using p by (simp add: z_def)
  have zb: "z < - 1" "- 2 < z" using assms False p unfolding h z_def by (simp_all add: field_simps)
  have "x / ulp x = x / pow2 (- 1075) / 2" by (simp only: u h) simp
  then have eq: "x / ulp x = z / 2" by (simp only: z_def)
  have "\<bar>z / 2 - of_int (- 1)\<bar> < 1 / 2" using zb by (simp add: abs_less_iff)
  then have "\<bar>x / ulp x - of_int (- 1)\<bar> < 1 / 2" by (simp only: eq)
  then have "roundHalfEven (x / ulp x) = - 1" by (rule roundHalfEven_unique)
  then have "rnd x = - pow2 (- 1074)" by (simp add: rnd_def u)
  then show ?thesis using pow2_pos [of "- 1074"] by simp
qed

text \<open>The rounded quotient lies between the floor of the exact quotient and its successor.\<close>

lemma rnd_quotient:
  assumes "\<bar>t\<bar> < 2 ^ 52"
  shows "of_int \<lfloor>t\<rfloor> \<le> rnd t" and "rnd t \<le> of_int \<lfloor>t\<rfloor> + 1"
    and "\<lfloor>t\<rfloor> \<le> \<lfloor>rnd t\<rfloor>" and "\<lfloor>rnd t\<rfloor> \<le> \<lfloor>t\<rfloor> + 1"
    and "\<bar>rnd t\<bar> \<le> 2 ^ 52"
proof -
  define N where "N = \<lfloor>t\<rfloor>"
  have Nt: "of_int N \<le> t" "t < of_int N + 1" unfolding N_def by linarith+
  have "- (2 ^ 52) \<le> t" "t < 2 ^ 52" using assms by (simp_all add: abs_less_iff)
  then have "(of_int (- (2 ^ 52)) :: rat) \<le> t" "t < of_int (2 ^ 52)" by simp_all
  then have f: "- (2 ^ 52) \<le> N" "N < 2 ^ 52"
    unfolding N_def by (simp_all only: le_floor_iff floor_less_iff)
  have "(2::int) ^ 53 = 2 * 2 ^ 52" by simp
  with f have "\<bar>N\<bar> \<le> 2 ^ 53" "\<bar>N + 1\<bar> \<le> 2 ^ 53" by linarith+
  then have "double (of_int N)" "double (of_int (N + 1))"
    by (simp_all only: double_int)
  moreover have "of_int N \<le> t" "t \<le> of_int (N + 1)" using Nt by simp_all
  ultimately have "of_int N \<le> rnd t" "rnd t \<le> of_int (N + 1)"
    by (simp_all only: rnd_ge_double rnd_le_double)
  then have lo: "of_int N \<le> rnd t" and hi: "rnd t \<le> of_int N + 1" by simp_all
  from lo have f1: "N \<le> \<lfloor>rnd t\<rfloor>" by (simp only: le_floor_iff)
  from hi have "rnd t \<le> of_int (N + 1)" by simp
  then have "\<lfloor>rnd t\<rfloor> \<le> \<lfloor>of_int (N + 1) :: rat\<rfloor>" by (rule floor_mono)
  then have f2: "\<lfloor>rnd t\<rfloor> \<le> N + 1" by (simp only: floor_of_int)
  have "N + 1 \<le> 2 ^ 52" using f(2) by simp
  then have "(of_int (N + 1) :: rat) \<le> of_int (2 ^ 52)" by (simp only: of_int_le_iff)
  moreover have "(of_int (- (2 ^ 52)) :: rat) \<le> of_int N"
    using f(1) by (simp only: of_int_le_iff)
  ultimately have "- (2 ^ 52) \<le> rnd t" "rnd t \<le> 2 ^ 52" using lo hi by simp_all
  then have a: "\<bar>rnd t\<bar> \<le> 2 ^ 52" by (simp only: abs_le_iff) simp
  show "of_int \<lfloor>t\<rfloor> \<le> rnd t" and "rnd t \<le> of_int \<lfloor>t\<rfloor> + 1"
    and "\<lfloor>t\<rfloor> \<le> \<lfloor>rnd t\<rfloor>" and "\<lfloor>rnd t\<rfloor> \<le> \<lfloor>t\<rfloor> + 1"
    and "\<bar>rnd t\<bar> \<le> 2 ^ 52"
    using lo hi f1 f2 a unfolding N_def by blast+
qed

section \<open>Months and remainder of binary64 amounts\<close>

text \<open>
  The quotient of the budget by the monthly cost is rounded before it is floored, the product
  of the months and the monthly cost is rounded, and so is its difference from the budget.
  Below, \<open>b\<close> is the budget, \<open>m\<close> the monthly cost and \<open>n\<close> the number of months.
\<close>

lemma pow2_52: "pow2 52 = 2 ^ 52"
  by (simp add: pow2_def)

lemma ulp_le_half:
  assumes "\<bar>x\<bar> < 2 ^ 52"
  shows "x \<noteq> 0 \<Longrightarrow> ulp x \<le> 1 / 2"
proof -
  assume x: "x \<noteq> 0"
  have "\<bar>x\<bar> < pow2 52" using assms by (simp add: pow2_52)
  with x have "ulp x \<le> pow2 (52 - 53)" by (rule ulp_le_pow2) simp
  then show ?thesis by (simp add: pow2_def)
qed

text \<open>A quotient that rounds up to a non-zero integer.\<close>

lemma rounded_up:
  assumes db: "double b" and bb: "\<bar>b\<bar> < 2 ^ 52" and m: "0 < m" and n0: "n \<noteq> 0"
    and lt: "b / m < of_int n" and r: "rnd (b / m) = of_int n"
  shows "b < of_int n * m" and "of_int n * m \<le> b + 1 / 2"
    and "b \<le> rnd (of_int n * m)" and "rnd (of_int n * m) \<le> b + 1 / 2"
proof -
  define t where "t = b / m"
  have bt: "b = t * m" using m by (simp add: t_def)
  have t0: "t \<noteq> 0"
  proof
    assume "t = 0"
    then have "rnd t = 0" by (simp add: rnd_0)
    with r n0 show False by (simp add: t_def)
  qed
  have b0: "b \<noteq> 0" using t0 m by (simp add: bt)
  have rt: "rnd t = of_int n" using r by (simp only: t_def)
  have aerr: "\<bar>of_int n - t\<bar> \<le> ulp t / 2" using rnd_error [of t] by (simp only: rt)
  then have err: "of_int n - t \<le> ulp t / 2" by linarith
  have n1: "1 \<le> \<bar>of_int n :: rat\<bar>"
  proof -
    have "1 \<le> \<bar>n\<bar>" using n0 by simp
    then have "(of_int 1 :: rat) \<le> of_int \<bar>n\<bar>" by (simp only: of_int_le_iff)
    then show ?thesis by simp
  qed
  have normal: "pow2 (- 1022) \<le> \<bar>t\<bar>"
  proof (rule ccontr)
    assume "\<not> pow2 (- 1022) \<le> \<bar>t\<bar>"
    then have small: "\<bar>t\<bar> < pow2 (- 1022)" by simp
    with t0 have "ulp t = pow2 (- 1074)" by (rule ulp_subnormal)
    then have "\<bar>of_int n - t\<bar> \<le> pow2 (- 1074) / 2" using aerr by simp
    moreover have "pow2 (- 1074) \<le> pow2 (- 2)" "pow2 (- 1022) \<le> pow2 (- 2)"
      by (rule pow2_mono, simp)+
    moreover have "pow2 (- 2) = 1 / 4" by (simp add: pow2_def)
    ultimately have "\<bar>of_int n :: rat\<bar> < 1" using small by linarith
    with n1 show False by simp
  qed
  have "ulp t \<le> \<bar>t\<bar> * pow2 (- 52)" using normal by (rule ulp_normal)
  moreover have "pow2 (- 52) = 2 * pow2 (- 53)" using pow2_double [of "- 53"] by simp
  ultimately have "of_int n - t \<le> \<bar>t\<bar> * pow2 (- 53)" using err by simp
  then have "(of_int n - t) * m \<le> \<bar>t\<bar> * pow2 (- 53) * m"
    using m by (simp only: mult_right_mono less_imp_le)
  moreover have "\<bar>b\<bar> = \<bar>t\<bar> * m" using m by (simp add: bt abs_mult)
  ultimately have "of_int n * m - b \<le> \<bar>b\<bar> * pow2 (- 53)"
    by (simp add: bt algebra_simps)
  moreover have "\<bar>b\<bar> * pow2 (- 53) < ulp b" using b0 by (rule ulp_gt)
  moreover have uh: "ulp b \<le> 1 / 2" using bb b0 by (rule ulp_le_half)
  ultimately have up: "of_int n * m \<le> b + ulp b" by linarith
  have "t * m < of_int n * m" using lt m by (simp only: t_def [symmetric] mult_strict_right_mono)
  then show low: "b < of_int n * m" by (simp only: bt)
  show "of_int n * m \<le> b + 1 / 2" using up uh by linarith
  have "\<bar>b\<bar> < 2 ^ 53" using bb by simp
  with db b0 have "double (b + ulp b)" by (rule double_successor)
  then have "rnd (of_int n * m) \<le> b + ulp b" using up by (rule rnd_le_double)
  then show "rnd (of_int n * m) \<le> b + 1 / 2" using uh by linarith
  show "b \<le> rnd (of_int n * m)" using db low by (intro rnd_ge_double) simp_all
qed

text \<open>A negative quotient that rounds up to zero.\<close>

lemma rounded_to_zero:
  assumes dm: "double m" and m: "0 < m" and r: "rnd (b / m) = 0"
  shows "\<bar>b\<bar> < 1 / 2"
proof -
  have "\<bar>b / m\<bar> \<le> pow2 (- 1075)" using r by (rule rnd_eq_0)
  then have "\<bar>b / m\<bar> * m \<le> pow2 (- 1075) * m" using m by (simp only: mult_right_mono less_imp_le)
  moreover have "\<bar>b / m\<bar> * m = \<bar>b\<bar>" using m by (simp add: abs_divide)
  moreover have "m < pow2 1024" using double_less [OF dm] by simp
  then have "pow2 (- 1075) * m < pow2 (- 1075) * pow2 1024"
    using pow2_pos [of "- 1075"] by (simp only: mult_strict_left_mono)
  moreover have "pow2 (- 1075) * pow2 1024 = pow2 (- 51)" by (simp only: pow2_add [symmetric]) simp
  moreover have "pow2 (- 51) \<le> pow2 (- 1)" by (rule pow2_mono) simp
  moreover have "pow2 (- 1) = 1 / 2" by (simp add: pow2_def)
  ultimately show ?thesis by linarith
qed

text \<open>The floor of the quotient is the number of months: a positive number.\<close>

lemma whole_months_pos:
  assumes db: "double b" and bb: "\<bar>b\<bar> < 2 ^ 52" and m: "0 < m" and n: "0 < n"
    and lo: "of_int n * m \<le> b" and hi: "b < (of_int n + 1) * m"
  defines "P \<equiv> rnd (of_int n * m)"
  defines "R \<equiv> rnd (b - P)"
  shows "\<bar>P\<bar> < 2 ^ 53" and "0 \<le> R" and "R < m + 1 / 2" and "R \<le> \<bar>b\<bar>"
    and "\<bar>of_int n * m + of_int \<lfloor>R + 1 / 2\<rfloor> - b\<bar> \<le> 1"
proof -
  define x where "x = of_int n * m"
  have "(0::rat) < of_int n" using n by simp
  then have x0: "0 < x" unfolding x_def using m by (rule mult_pos_pos)
  have xb: "x \<le> b" using lo by (simp add: x_def)
  have b0: "0 \<le> b" using x0 xb by simp
  have bm: "b - x < m" using hi by (simp add: x_def algebra_simps)
  have P: "P = rnd x" by (simp add: P_def x_def)
  have P0: "0 \<le> P" unfolding P using x0 by (intro rnd_nonneg) simp
  have Pb: "P \<le> b" unfolding P using db xb by (rule rnd_le_double)
  have "\<bar>x\<bar> < 2 ^ 52" using x0 xb bb by simp
  then have ex: "\<bar>P - x\<bar> \<le> 1 / 4" unfolding P by (rule rnd_error_quarter)
  define y where "y = b - P"
  have R: "R = rnd y" by (simp add: R_def y_def)
  have y0: "0 \<le> y" and yb: "y \<le> b" using P0 Pb by (simp_all add: y_def)
  show R0: "0 \<le> R" unfolding R using y0 by (rule rnd_nonneg)
  have Rb: "R \<le> b" unfolding R using db yb by (rule rnd_le_double)
  then show "R \<le> \<bar>b\<bar>" by simp
  have "\<bar>y\<bar> < 2 ^ 52" using y0 yb bb by simp
  then have ey: "\<bar>R - y\<bar> \<le> 1 / 4" unfolding R by (rule rnd_error_quarter)
  have eR: "\<bar>R - (b - x)\<bar> \<le> 1 / 2" using ex ey unfolding y_def by linarith
  then show "R < m + 1 / 2" using bm by linarith
  show "\<bar>P\<bar> < 2 ^ 53" using P0 Pb bb by simp
  have "\<bar>x + of_int \<lfloor>R + 1 / 2\<rfloor> - b\<bar> \<le> 1" using eR Math_round_near [of R] by linarith
  then show "\<bar>of_int n * m + of_int \<lfloor>R + 1 / 2\<rfloor> - b\<bar> \<le> 1" by (simp only: x_def)
qed

text \<open>A debt of less than one month.\<close>

lemma whole_months_minus_one:
  assumes dm: "double m" and m: "0 < m" and lo: "- m \<le> b" and hi: "b < 0"
  defines "P \<equiv> rnd (of_int (- 1) * m)"
  defines "R \<equiv> rnd (b - P)"
  shows "P = - m" and "0 \<le> R" and "R \<le> m"
proof -
  show P: "P = - m" using dm by (simp add: P_def rnd_neg double_rnd)
  have "0 \<le> b - P" "b - P \<le> m" using lo hi by (simp_all add: P)
  then show "0 \<le> R" and "R \<le> m" unfolding R_def using dm
    by (simp_all only: rnd_nonneg rnd_le_double)
qed

text \<open>A debt of more than one month.\<close>

lemma whole_months_neg:
  assumes db: "double b" and bb: "\<bar>b\<bar> < 2 ^ 52" and m: "0 < m" and n: "n \<le> - 2"
    and lo: "of_int n * m \<le> b" and hi: "b < (of_int n + 1) * m"
  defines "P \<equiv> rnd (of_int n * m)"
  defines "R \<equiv> rnd (b - P)"
  shows "\<bar>P\<bar> < 2 ^ 53" and "0 \<le> R" and "R < m + 1 / 2" and "R \<le> \<bar>b\<bar>"
proof -
  define x where "x = of_int n * m"
  have xb: "x \<le> b" using lo by (simp add: x_def)
  have bm: "b - x < m" using hi by (simp add: x_def algebra_simps)
  have "(of_int n :: rat) + 1 \<le> - 1"
  proof -
    have "n + 1 \<le> - 1" using n by simp
    then have "(of_int (n + 1) :: rat) \<le> of_int (- 1)" by (simp only: of_int_le_iff)
    then show ?thesis by simp
  qed
  then have "(of_int n + 1) * m \<le> - 1 * m" using m by (simp only: mult_right_mono less_imp_le)
  with hi have mb: "m < - b" by simp
  then have bneg: "b < 0" using m by linarith
  have x2: "2 * b \<le> x" using bm mb by linarith
  have P: "P = rnd x" by (simp add: P_def x_def)
  have "\<bar>b\<bar> < pow2 1023"
  proof -
    have "pow2 52 \<le> pow2 1023" by (rule pow2_mono) simp
    with bb show ?thesis by (simp add: pow2_52)
  qed
  with db have d2: "double (2 * b)" by (rule double_twice)
  have Pb: "P \<le> b" unfolding P using db xb by (rule rnd_le_double)
  have P2: "2 * b \<le> P" unfolding P using d2 x2 by (rule rnd_ge_double)
  show "\<bar>P\<bar> < 2 ^ 53" using Pb P2 bb bneg by simp
  define y where "y = b - P"
  have R: "R = rnd y" by (simp add: R_def y_def)
  have y0: "0 \<le> y" and yb: "y \<le> - b" using Pb P2 by (simp_all add: y_def)
  show R0: "0 \<le> R" unfolding R using y0 by (rule rnd_nonneg)
  have "double (- b)" using db by (simp add: double_neg)
  then have "R \<le> - b" unfolding R using yb by (rule rnd_le_double)
  then show "R \<le> \<bar>b\<bar>" by simp
  have ya: "\<bar>y\<bar> < 2 ^ 52" using y0 yb bb by simp
  show "R < m + 1 / 2"
  proof (cases "\<bar>x\<bar> < 2 ^ 52")
    case True
    then have ex: "\<bar>P - x\<bar> \<le> 1 / 4" unfolding P by (rule rnd_error_quarter)
    have ey: "\<bar>R - y\<bar> \<le> 1 / 4" unfolding R using ya by (rule rnd_error_quarter)
    have "\<bar>R - (b - x)\<bar> \<le> 1 / 2" using ex ey unfolding y_def by linarith
    then show ?thesis using bm by linarith
  next
    case False
    then have xlo: "pow2 52 \<le> \<bar>x\<bar>" by (simp add: pow2_52)
    have "\<bar>x\<bar> < 2 * 2 ^ 52" using x2 xb bb bneg by simp
    then have xhi: "\<bar>x\<bar> < pow2 (52 + 1)" by (simp add: pow2_def)
    have ux: "ulp x = 1" using ulp_eq [OF xlo xhi] by (simp add: pow2_0)
    define k where "k = roundHalfEven (x / ulp x)"
    have Pk: "P = of_int k" by (simp add: P rnd_def k_def ux)
    have ex: "\<bar>P - x\<bar> \<le> 1 / 2" using rnd_error [of x] by (simp add: P ux)
    have "2 ^ 52 \<le> \<bar>x\<bar>" using False by simp
    then have blo: "pow2 51 \<le> \<bar>b\<bar>" using x2 xb bneg by (simp add: pow2_def)
    have bhi: "\<bar>b\<bar> < pow2 (51 + 1)" using bb by (simp add: pow2_52)
    have ub: "ulp b = 1 / 2" using ulp_eq [OF blo bhi] by (simp add: pow2_def)
    have b0: "b \<noteq> 0" using bneg by simp
    obtain j :: int where j: "b = of_int j * ulp b" using double_mantissa [OF db b0] by blast
    then have bj: "b = of_int j / 2" by (simp add: ub)
    have yj: "y = of_int (j - 2 * k) / 2" by (simp add: y_def Pk bj)
    have "\<bar>of_int (j - 2 * k) :: rat\<bar> < 2 * 2 ^ 52" using ya unfolding yj by simp
    then have "\<bar>of_int (j - 2 * k) :: rat\<bar> < of_int (2 ^ 53)" by simp
    then have "(of_int \<bar>j - 2 * k\<bar> :: rat) < of_int (2 ^ 53)" by (simp only: of_int_abs)
    then have "\<bar>j - 2 * k\<bar> < 2 ^ 53" by (simp only: of_int_less_iff)
    then have "\<bar>j - 2 * k\<bar> \<le> 2 ^ 53" by simp
    then have "double (of_int (j - 2 * k) / 2)" by (rule double_half_int)
    then have "R = y" unfolding R yj by (rule double_rnd)
    then show ?thesis using ex bm unfolding y_def by linarith
  qed
qed

lemma pow2_53_less_1024: "(2::rat) ^ 53 < pow2 1024"
  using pow2_strict_mono [of 53 1024] by (simp add: pow2_53)

text \<open>
  The months, the product and the difference of \<^verbatim>\<open>calculateLongevity\<close>, for a budget
  below \<open>2 ^ 52\<close> and fewer than \<open>2 ^ 52\<close> months.
\<close>

lemma remainder_analysis:
  assumes db: "double b" and dm: "double m" and bb: "\<bar>b\<bar> < 2 ^ 52" and m: "0 < m"
    and bm: "\<bar>b\<bar> < 2 ^ 52 * m"
  defines "n \<equiv> \<lfloor>rnd (b / m)\<rfloor>"
  defines "P \<equiv> rnd (of_int n * m)"
  defines "R \<equiv> rnd (b - P)"
  shows "\<lfloor>b / m\<rfloor> \<le> n" and "n \<le> \<lfloor>b / m\<rfloor> + 1" and "\<bar>rnd (b / m)\<bar> \<le> 2 ^ 52"
    and "\<bar>P\<bar> < pow2 1024" and "- (1 / 2) \<le> R" and "R < m + 1 / 2" and "R \<le> max \<bar>b\<bar> m"
    and "0 \<le> b \<Longrightarrow> \<bar>of_int n * m + of_int \<lfloor>R + 1 / 2\<rfloor> - b\<bar> \<le> 1"
    and "b / m < - pow2 (- 1075) \<Longrightarrow> n < 0"
proof -
  define t where "t = b / m"
  define N where "N = \<lfloor>t\<rfloor>"
  have bt: "b = t * m" using m by (simp add: t_def)
  have "\<bar>t\<bar> * m < 2 ^ 52 * m" using bm m by (simp add: bt abs_mult)
  then have ta: "\<bar>t\<bar> < 2 ^ 52" using m by (simp only: mult_less_cancel_right_pos)
  note q = rnd_quotient [OF ta]
  have n: "n = \<lfloor>rnd t\<rfloor>" by (simp add: n_def t_def)
  show "\<lfloor>b / m\<rfloor> \<le> n" and "n \<le> \<lfloor>b / m\<rfloor> + 1" and "\<bar>rnd (b / m)\<bar> \<le> 2 ^ 52"
    using q(3,4,5) unfolding n t_def by blast+
  have nN: "N \<le> n" "n \<le> N + 1" using q(3,4) unfolding n N_def by blast+
  have Nt: "of_int N \<le> t" "t < of_int N + 1" unfolding N_def by linarith+
  have nq: "of_int n \<le> rnd t" unfolding n by (rule of_int_floor_le)
  show "b / m < - pow2 (- 1075) \<Longrightarrow> n < 0"
  proof -
    assume "b / m < - pow2 (- 1075)"
    then have "rnd t < 0" unfolding t_def by (rule rnd_negative)
    then have "rnd t < of_int 0" by simp
    then show "n < 0" unfolding n by (simp only: floor_less_iff)
  qed
  have P: "P = rnd (of_int n * m)" and R: "R = rnd (b - P)" by (simp_all add: P_def R_def)
  have mm: "\<bar>m\<bar> < pow2 1024" using dm by (rule double_less)
  have main: "\<bar>P\<bar> < pow2 1024 \<and> - (1 / 2) \<le> R \<and> R < m + 1 / 2 \<and> R \<le> max \<bar>b\<bar> m
      \<and> (0 \<le> b \<longrightarrow> \<bar>of_int n * m + of_int \<lfloor>R + 1 / 2\<rfloor> - b\<bar> \<le> 1)"
  proof (cases "n = N")
    case True
    have "of_int n * m \<le> t * m" "t * m < (of_int n + 1) * m"
      using Nt m unfolding True by (simp_all only: mult_right_mono mult_strict_right_mono less_imp_le)
    then have lo: "of_int n * m \<le> b" and hi: "b < (of_int n + 1) * m" by (simp_all only: bt)
    consider "0 < n" | "n = 0" | "n = - 1" | "n \<le> - 2" by linarith
    then show ?thesis
    proof cases
      case 1
      note w = whole_months_pos [OF db bb m 1 lo hi, folded P R]
      have "\<bar>P\<bar> < pow2 1024" using w(1) pow2_53_less_1024 by linarith
      then show ?thesis using w(2-5) by simp
    next
      case 2
      have lo0: "0 \<le> b" and hi0: "b < m" using lo hi by (simp_all add: 2)
      have P0: "P = 0" by (simp add: P 2 rnd_0)
      have R0: "R = b" using db by (simp add: R P0 double_rnd)
      have "\<bar>of_int n * m + of_int \<lfloor>R + 1 / 2\<rfloor> - b\<bar> \<le> 1"
        using Math_round_near [of b] by (simp add: 2 R0)
      then show ?thesis using P0 R0 lo0 hi0 pow2_pos [of 1024] by simp
    next
      case 3
      have lo1: "- m \<le> b" and hi1: "b < 0" using lo hi by (simp_all add: 3)
      note w = whole_months_minus_one [OF dm m lo1 hi1]
      have P1: "P = - m" using w(1) by (simp add: P 3)
      have R1: "0 \<le> R" "R \<le> m" using w(2,3) by (simp_all add: R P 3)
      show ?thesis using P1 R1 mm hi1 by simp
    next
      case 4
      note w = whole_months_neg [OF db bb m 4 lo hi, folded P R]
      have "\<bar>P\<bar> < pow2 1024" using w(1) pow2_53_less_1024 by linarith
      moreover have "b < 0"
      proof -
        have "(of_int n :: rat) + 1 \<le> 0" using 4 by linarith
        then have "(of_int n + 1) * m \<le> 0" using m by (simp add: mult_le_0_iff)
        with hi show ?thesis by linarith
      qed
      ultimately show ?thesis using w(2-4) by simp
    qed
  next
    case False
    then have n1: "n = N + 1" using nN by linarith
    have "rnd t \<le> of_int n" using q(2) unfolding n1 N_def by simp
    with nq have r: "rnd (b / m) = of_int n" unfolding t_def by simp
    have lt: "b / m < of_int n" using Nt(2) unfolding n1 t_def by simp
    show ?thesis
    proof (cases "n = 0")
      case True
      have bneg: "b < 0" using lt m by (simp add: True divide_less_0_iff)
      have "rnd (b / m) = 0" using r by (simp add: True)
      with dm m have small: "\<bar>b\<bar> < 1 / 2" by (rule rounded_to_zero)
      have P0: "P = 0" by (simp add: P True rnd_0)
      have R0: "R = b" using db by (simp add: R P0 double_rnd)
      show ?thesis using P0 R0 small bneg m pow2_pos [of 1024] by simp
    next
      case n0: False
      note u = rounded_up [OF db bb m n0 lt r, folded P]
      have "\<bar>P\<bar> < 2 ^ 53" using u(3,4) bb by (simp add: abs_less_iff)
      then have Pf: "\<bar>P\<bar> < pow2 1024" using pow2_53_less_1024 by linarith
      have "double (of_int (- 1) / 2)" by (rule double_half_int) simp
      then have "double (- (1 / 2))" by simp
      moreover have "- (1 / 2) \<le> b - P" "b - P \<le> 0" using u(3,4) by simp_all
      ultimately have Rb: "- (1 / 2) \<le> R" "R \<le> 0"
        unfolding R using double_0 by (simp_all only: rnd_ge_double rnd_le_double)
      have "0 \<le> R + 1 / 2" "R + 1 / 2 < 1" using Rb by simp_all
      then have "\<lfloor>R + 1 / 2\<rfloor> = 0" by (intro floor_unique) simp_all
      then have "\<bar>of_int n * m + of_int \<lfloor>R + 1 / 2\<rfloor> - b\<bar> \<le> 1" using u(1,2) by simp
      then show ?thesis using Pf Rb m by simp
    qed
  qed
  then show "\<bar>P\<bar> < pow2 1024" and "- (1 / 2) \<le> R" and "R < m + 1 / 2" and "R \<le> max \<bar>b\<bar> m"
    and "0 \<le> b \<Longrightarrow> \<bar>of_int n * m + of_int \<lfloor>R + 1 / 2\<rfloor> - b\<bar> \<le> 1"
    by blast+
qed

text \<open>The daily expense, and the days that a remainder covers.\<close>

lemma dailyExpense_double:
  assumes dm: "double m" and m: "0 < m"
  shows "\<exists>D. js_or_num (Some (jsdiv (Fin m) (Fin 30))) (Fin 1) = Fin D \<and> 0 < D
           \<and> (pow2 (- 53) \<le> m \<longrightarrow> m / 31 \<le> D)"
proof -
  define x where "x = m / 30"
  have x0: "0 \<le> x" and xm: "x \<le> m" using m by (simp_all add: x_def)
  note f = fl_between [OF double_0 dm x0 xm]
  have d: "jsdiv (Fin m) (Fin 30) = Fin (rnd x)" using f(1) by (simp add: x_def)
  have big: "m / 31 \<le> rnd x" if "pow2 (- 53) \<le> m"
  proof -
    have "pow2 (- 1022) \<le> pow2 (- 58)" by (rule pow2_mono) simp
    also have "\<dots> = pow2 (- 53) * pow2 (- 5)" by (simp only: pow2_add [symmetric]) simp
    also have "\<dots> = pow2 (- 53) / 32" by (simp add: pow2_def)
    also have "\<dots> \<le> m / 32" using that by (simp add: divide_right_mono)
    also have "\<dots> \<le> x" using m by (simp add: x_def)
    finally have "pow2 (- 1022) \<le> \<bar>x\<bar>" using x0 by simp
    then have "ulp x \<le> \<bar>x\<bar> * pow2 (- 52)" by (rule ulp_normal)
    moreover have "pow2 (- 52) \<le> pow2 (- 5)" by (rule pow2_mono) simp
    then have "pow2 (- 52) \<le> 1 / 32" by (simp add: pow2_def)
    then have "\<bar>x\<bar> * pow2 (- 52) \<le> \<bar>x\<bar> * (1 / 32)" by (intro mult_left_mono) simp_all
    ultimately have "ulp x \<le> x / 32" using x0 by simp
    then have "x - x / 64 \<le> rnd x" using rnd_error [of x] by linarith
    moreover have "m / 31 \<le> x - x / 64" using m by (simp add: x_def)
    ultimately show ?thesis by linarith
  qed
  show ?thesis
  proof (cases "rnd x = 0")
    case True
    have "\<not> pow2 (- 53) \<le> m"
    proof
      assume "pow2 (- 53) \<le> m"
      then have "m / 31 \<le> rnd x" by (rule big)
      with True m show False by simp
    qed
    then show ?thesis by (intro exI [of _ 1]) (simp add: d True del: jsdiv.simps)
  next
    case False
    then have "0 < rnd x" using f(2) by simp
    then show ?thesis using big False by (intro exI [of _ "rnd x"]) (simp add: d del: jsdiv.simps)
  qed
qed

lemma daysApprox_double:
  fixes r :: int
  assumes r: "0 \<le> r" and D: "0 < D" and bound: "0 < r \<Longrightarrow> of_int r \<le> 2 ^ 58 * D"
  shows "\<exists>d::int. Math_floor (jsdiv (Fin (of_int r)) (Fin D)) = Fin (of_int d) \<and> 0 \<le> d"
proof (cases "r = 0")
  case True
  then have "jsdiv (Fin (of_int r)) (Fin D) = Fin 0" using D by (simp add: fl_def)
  then show ?thesis by (intro exI [of _ 0]) simp
next
  case False
  then have "0 < r" using r by simp
  then have "of_int r \<le> 2 ^ 58 * D" by (rule bound)
  then have hi: "of_int r / D \<le> 2 ^ 58" using D by (simp add: field_simps)
  have lo: "0 \<le> of_int r / D" using r D by simp
  have "\<bar>of_int 1 * pow2 58\<bar> < pow2 1024" using pow2_strict_mono [of 58 1024] pow2_pos [of 58] by simp
  then have "double (of_int 1 * pow2 58)" by (intro double_grid) simp_all
  then have "double (2 ^ 58)" by (simp add: pow2_def)
  note f = fl_between [OF double_0 this lo hi]
  have "jsdiv (Fin (of_int r)) (Fin D) = Fin (rnd (of_int r / D))" using f(1) D by simp
  moreover have "0 \<le> \<lfloor>rnd (of_int r / D)\<rfloor>" using f(2) by simp
  ultimately show ?thesis by (intro exI [of _ "\<lfloor>rnd (of_int r / D)\<rfloor>"]) simp
qed

text \<open>
  The result for a budget below \<open>2 ^ 52\<close> in magnitude and fewer than \<open>2 ^ 52\<close>
  months: amounts with a fractional part included.
\<close>

lemma calculateLongevity_double:
  assumes db: "double b" and dm: "double m" and bb: "\<bar>b\<bar> < 2 ^ 52" and m: "0 < m"
    and bm: "\<bar>b\<bar> < 2 ^ 52 * m"
  shows "\<exists>n r d :: int.
           calculateLongevity (Fin b) (Fin m) =
             \<lparr>months = Fin (of_int n), years = Fin (of_int (n div 12)),
              remainder = Fin (of_int r), daysApprox = Fin (of_int d)\<rparr>
         \<and> \<lfloor>b / m\<rfloor> \<le> n \<and> n \<le> \<lfloor>b / m\<rfloor> + 1
         \<and> 0 \<le> r \<and> of_int r < m + 1 \<and> 0 \<le> d
         \<and> (0 \<le> b \<longrightarrow> \<bar>of_int n * m + of_int r - b\<bar> \<le> 1)
         \<and> (b / m < - pow2 (- 1075) \<longrightarrow> n < 0)"
proof -
  define n where "n = \<lfloor>rnd (b / m)\<rfloor>"
  define P where "P = rnd (of_int n * m)"
  define R where "R = rnd (b - P)"
  define r where "r = \<lfloor>R + 1 / 2\<rfloor>"
  note a = remainder_analysis [OF db dm bb m bm, folded n_def, folded P_def, folded R_def, folded r_def]
  have guard: "\<not> jsle (Fin m) (Fin 0)" using m by simp
  have "\<bar>rnd (b / m)\<bar> < pow2 1024"
    using a(3) pow2_53_less_1024 by (simp add: abs_le_iff abs_less_iff)
  then have "fl (b / m) = Fin (rnd (b / m))" by (rule fl_finite)
  then have months: "Math_floor (jsdiv (Fin b) (Fin m)) = Fin (of_int n)"
    using m by (simp add: n_def)
  have "\<bar>of_int n :: rat\<bar> \<le> \<bar>rnd (b / m)\<bar> + 1" unfolding n_def by linarith
  then have "\<bar>of_int n :: rat\<bar> < of_int (2 ^ 53)" using a(3) by simp
  then have "(of_int \<bar>n\<bar> :: rat) < of_int (2 ^ 53)" by (simp only: of_int_abs)
  then have "\<bar>n\<bar> < 2 ^ 53" by (simp only: of_int_less_iff)
  then have "Math_floor (jsdiv (Fin (of_int n)) (Fin (of_int 12))) = Fin (of_int (n div 12))"
    by (intro Math_floor_div_int) simp_all
  then have years: "Math_floor (jsdiv (Fin (of_int n)) (Fin 12)) = Fin (of_int (n div 12))"
    by simp
  have prod: "jsmul (Fin (of_int n)) (Fin m) = Fin P"
    using fl_finite [of "of_int n * m"] a(4) by (simp add: P_def)
  have Rm: "R \<le> max \<bar>b\<bar> m" by (rule a(7))
  have "max \<bar>b\<bar> m < pow2 1024" using double_less [OF db] double_less [OF dm] by simp
  moreover have "(1 / 2 :: rat) < pow2 1024" using pow2_53_less_1024 by simp
  ultimately have "\<bar>R\<bar> < pow2 1024" using a(5) Rm by linarith
  then have diff: "jssub (Fin b) (Fin P) = Fin R"
    using fl_finite [of "b - P"] by (simp add: R_def)
  have round: "Math_round (Fin R) = Fin (of_int r)" by (simp add: r_def)
  have r0: "0 \<le> r" unfolding r_def using a(5) by simp
  have rR: "of_int r \<le> R + 1 / 2" unfolding r_def by (rule of_int_floor_le)
  then have rm: "of_int r < m + 1" using a(6) by linarith
  obtain D where D: "js_or_num (Some (jsdiv (Fin m) (Fin 30))) (Fin 1) = Fin D" "0 < D"
      "pow2 (- 53) \<le> m \<longrightarrow> m / 31 \<le> D"
    using dailyExpense_double [OF dm m] by blast
  have bound: "of_int r \<le> 2 ^ 58 * D" if "0 < r"
  proof -
    have "1 \<le> r" using that by simp
    then have "(of_int 1 :: rat) \<le> of_int r" by (simp only: of_int_le_iff)
    then have R1: "1 / 2 \<le> R" using rR by simp
    then have r2: "of_int r \<le> 2 * R" using rR by linarith
    have "max \<bar>b\<bar> m \<le> 2 ^ 52 * m" using bm m by simp
    with Rm have Rm2: "R \<le> 2 ^ 52 * m" by linarith
    with r2 have "of_int r \<le> 2 * (2 ^ 52 * m)" by linarith
    then have rb: "of_int r \<le> 2 ^ 53 * m" by simp
    have "1 / 2 \<le> 2 ^ 52 * m" using R1 Rm2 by linarith
    then have "pow2 (- 53) \<le> m" by (simp add: pow2_def field_simps)
    then have "m / 31 \<le> D" using D(3) by simp
    then have "2 ^ 53 * m \<le> 2 ^ 53 * (31 * D)" by simp
    also have "\<dots> \<le> 2 ^ 58 * D" using D(2) by simp
    finally show ?thesis using rb by linarith
  qed
  obtain d :: int where d: "Math_floor (jsdiv (Fin (of_int r)) (Fin D)) = Fin (of_int d)" "0 \<le> d"
    using daysApprox_double [OF r0 D(2) bound] by blast
  have "calculateLongevity (Fin b) (Fin m) =
           \<lparr>months = Fin (of_int n), years = Fin (of_int (n div 12)),
            remainder = Fin (of_int r), daysApprox = Fin (of_int d)\<rparr>"
    unfolding calculateLongevity_def Let_def
    using guard
    by (simp add: months years prod diff round D(1) d(1)
        del: jsdiv.simps jsmul.simps jssub.simps jsle.simps Math_floor.simps Math_round.simps
          js_or_num.simps)
  moreover have "0 \<le> b \<longrightarrow> \<bar>of_int n * m + of_int r - b\<bar> \<le> 1" using a(8) by blast
  moreover have "b / m < - pow2 (- 1075) \<longrightarrow> n < 0" using a(9) by blast
  ultimately show ?thesis using a(1,2) r0 rm d(2) by blast
qed

lemma calculateLongevity_behind_guard:
  assumes "0 < m"
  shows "months (calculateLongevity (Fin b) (Fin m)) = Math_floor (jsdiv (Fin b) (Fin m))"
    and "years (calculateLongevity (Fin b) (Fin m)) =
           Math_floor (jsdiv (months (calculateLongevity (Fin b) (Fin m))) (Fin 12))"
    and "remainder (calculateLongevity (Fin b) (Fin m)) =
           Math_round (jssub (Fin b) (jsmul (months (calculateLongevity (Fin b) (Fin m))) (Fin m)))"
  using assms unfolding calculateLongevity_def Let_def
  by (simp_all del: jsdiv.simps jsmul.simps jssub.simps Math_floor.simps Math_round.simps
      js_or_num.simps)


lemma daysApprox_behind_guard:
  assumes "0 < m"
  shows "daysApprox (calculateLongevity (Fin b) (Fin m)) =
           Math_floor (jsdiv (remainder (calculateLongevity (Fin b) (Fin m)))
             (js_or_num (Some (jsdiv (Fin m) (Fin 30))) (Fin 1)))"
  using assms unfolding calculateLongevity_def Let_def
  by (simp del: jsdiv.simps jsmul.simps jssub.simps Math_floor.simps Math_round.simps
      js_or_num.simps)

section \<open>The rounding errors of a conversion\<close>

lemma fl_isFinite: "isFinite (fl x) \<Longrightarrow> fl x = Fin (rnd x)"
  by (simp add: fl_rnd split: if_splits)

lemma rnd_error_53: "\<bar>rnd x - x\<bar> \<le> \<bar>x\<bar> / 2 ^ 53 + 1 / 2 ^ 106"
proof -
  have "pow2 (- 1075) \<le> pow2 (- 106)" by (rule pow2_mono) simp
  moreover have "pow2 (- 106) = 1 / 2 ^ 106" by (simp add: pow2_def)
  ultimately have a: "pow2 (- 1075) \<le> 1 / 2 ^ 106" by (simp only:)
  have "pow2 (- 53) = 1 / 2 ^ 53" by (simp add: pow2_def)
  then have b: "\<bar>x\<bar> * pow2 (- 53) = \<bar>x\<bar> / 2 ^ 53" by simp
  show ?thesis using rnd_error_rel [of x] a unfolding b by linarith
qed

text \<open>The rounding errors of the two sides of the linearity law.\<close>

lemma linear_error:
  fixes k :: int and a r :: rat
  assumes k: "0 < k" and r: "\<bar>r\<bar> < pow2 1024"
  defines "A \<equiv> rnd (of_int k * a)"
  defines "B \<equiv> rnd (A * r)"
  defines "C \<equiv> rnd (a * r)"
  defines "c \<equiv> \<lfloor>C + 1 / 2\<rfloor>"
  defines "q \<equiv> rnd (of_int k * of_int c)"
  defines "x \<equiv> \<bar>of_int k * a * r\<bar>"
  shows "\<bar>of_int \<lfloor>B + 1 / 2\<rfloor> - q\<bar> < (of_int k + 1) / 2 + (x + of_int k) / 2 ^ 50"
    and "\<bar>of_int k * of_int c :: rat\<bar> \<le> x + x / 2 ^ 53 + of_int k"
proof -
  define K :: rat where "K = of_int k"
  define X where "X = K * a * r"
  define p :: rat where "p = of_int \<lfloor>B + 1 / 2\<rfloor>"
  define c' :: rat where "c' = of_int c"
  have K1: "1 \<le> K"
  proof -
    have "1 \<le> k" using k by simp
    then have "(of_int 1 :: rat) \<le> of_int k" by (simp only: of_int_le_iff)
    then show ?thesis by (simp add: K_def)
  qed
  have x: "x = \<bar>X\<bar>" by (simp add: x_def X_def K_def)
  have x0: "0 \<le> x" by (simp add: x)
  have A: "A = rnd (K * a)" and q: "q = rnd (K * c')"
    by (simp_all add: A_def q_def K_def c'_def)
  have "\<bar>A - K * a\<bar> \<le> \<bar>K * a\<bar> * pow2 (- 53) + pow2 (- 1075)"
    unfolding A by (rule rnd_error_rel)
  then have "\<bar>A - K * a\<bar> * \<bar>r\<bar> \<le> (\<bar>K * a\<bar> * pow2 (- 53) + pow2 (- 1075)) * \<bar>r\<bar>"
    by (intro mult_right_mono) simp_all
  moreover have "\<bar>A - K * a\<bar> * \<bar>r\<bar> = \<bar>A * r - X\<bar>"
  proof -
    have "\<bar>A - K * a\<bar> * \<bar>r\<bar> = \<bar>(A - K * a) * r\<bar>" by (simp only: abs_mult)
    also have "(A - K * a) * r = A * r - X" by (simp add: X_def algebra_simps)
    finally show ?thesis .
  qed
  moreover have "\<bar>K * a\<bar> * pow2 (- 53) * \<bar>r\<bar> = x / 2 ^ 53"
    by (simp add: x X_def abs_mult pow2_def)
  moreover have "pow2 (- 1075) * \<bar>r\<bar> \<le> pow2 (- 1075) * pow2 1024"
    using r pow2_pos [of "- 1075"] by (intro mult_left_mono) simp_all
  moreover have "pow2 (- 1075) * pow2 1024 = 1 / 2 ^ 51"
    by (simp only: pow2_add [symmetric]) (simp add: pow2_def)
  ultimately have E1: "\<bar>A * r - X\<bar> \<le> x / 2 ^ 53 + 1 / 2 ^ 51"
    by (simp add: algebra_simps)
  have "\<bar>A * r\<bar> \<le> x + (x / 2 ^ 53 + 1 / 2 ^ 51)" using E1 unfolding x by linarith
  then have "\<bar>A * r\<bar> / 2 ^ 53 \<le> (x + (x / 2 ^ 53 + 1 / 2 ^ 51)) / 2 ^ 53"
    by (intro divide_right_mono) simp_all
  moreover have "\<bar>B - A * r\<bar> \<le> \<bar>A * r\<bar> / 2 ^ 53 + 1 / 2 ^ 106"
    unfolding B_def by (rule rnd_error_53)
  ultimately have E2: "\<bar>B - A * r\<bar> \<le> (x + (x / 2 ^ 53 + 1 / 2 ^ 51)) / 2 ^ 53 + 1 / 2 ^ 106"
    by linarith
  have Ep: "\<bar>p - B\<bar> \<le> 1 / 2" unfolding p_def by (rule Math_round_near)
  have "\<bar>C - a * r\<bar> \<le> \<bar>a * r\<bar> / 2 ^ 53 + 1 / 2 ^ 106" unfolding C_def by (rule rnd_error_53)
  then have "K * \<bar>C - a * r\<bar> \<le> K * (\<bar>a * r\<bar> / 2 ^ 53 + 1 / 2 ^ 106)"
    using K1 by (intro mult_left_mono) simp_all
  moreover have "K * \<bar>C - a * r\<bar> = \<bar>K * C - X\<bar>"
  proof -
    have "K * \<bar>C - a * r\<bar> = \<bar>K\<bar> * \<bar>C - a * r\<bar>" using K1 by simp
    also have "\<dots> = \<bar>K * (C - a * r)\<bar>" by (simp only: abs_mult)
    also have "K * (C - a * r) = K * C - X" by (simp add: X_def algebra_simps)
    finally show ?thesis .
  qed
  moreover have "K * \<bar>a * r\<bar> = x" using K1 by (simp add: x X_def abs_mult)
  ultimately have E3: "\<bar>K * C - X\<bar> \<le> x / 2 ^ 53 + K / 2 ^ 106"
    by (simp add: algebra_simps)
  have "\<bar>c' - C\<bar> \<le> 1 / 2" unfolding c'_def c_def by (rule Math_round_near)
  then have "K * \<bar>c' - C\<bar> \<le> K * (1 / 2)" using K1 by (intro mult_left_mono) simp_all
  moreover have "K * \<bar>c' - C\<bar> = \<bar>K * c' - K * C\<bar>"
  proof -
    have "K * \<bar>c' - C\<bar> = \<bar>K\<bar> * \<bar>c' - C\<bar>" using K1 by simp
    also have "\<dots> = \<bar>K * (c' - C)\<bar>" by (simp only: abs_mult)
    also have "K * (c' - C) = K * c' - K * C" by (simp add: algebra_simps)
    finally show ?thesis .
  qed
  ultimately have E4: "\<bar>K * c' - K * C\<bar> \<le> K / 2" by simp
  have Kc: "\<bar>K * c'\<bar> \<le> x + (x / 2 ^ 53 + K / 2 ^ 106) + K / 2"
    using E3 E4 unfolding x by linarith
  have "\<bar>K * c'\<bar> / 2 ^ 53 \<le> (x + (x / 2 ^ 53 + K / 2 ^ 106) + K / 2) / 2 ^ 53"
    using Kc by (intro divide_right_mono) simp_all
  moreover have "\<bar>q - K * c'\<bar> \<le> \<bar>K * c'\<bar> / 2 ^ 53 + 1 / 2 ^ 106"
    unfolding q by (rule rnd_error_53)
  ultimately have E5:
    "\<bar>q - K * c'\<bar> \<le> (x + (x / 2 ^ 53 + K / 2 ^ 106) + K / 2) / 2 ^ 53 + 1 / 2 ^ 106"
    by linarith
  have "\<bar>p - q\<bar> \<le> \<bar>p - B\<bar> + \<bar>B - A * r\<bar> + \<bar>A * r - X\<bar> + \<bar>K * C - X\<bar> + \<bar>K * c' - K * C\<bar>
      + \<bar>q - K * c'\<bar>" by linarith
  then have "\<bar>p - q\<bar> \<le> 1 / 2 + ((x + (x / 2 ^ 53 + 1 / 2 ^ 51)) / 2 ^ 53 + 1 / 2 ^ 106)
      + (x / 2 ^ 53 + 1 / 2 ^ 51) + (x / 2 ^ 53 + K / 2 ^ 106) + K / 2
      + ((x + (x / 2 ^ 53 + K / 2 ^ 106) + K / 2) / 2 ^ 53 + 1 / 2 ^ 106)"
    using Ep E2 E1 E3 E4 E5 by linarith
  also have "\<dots> < (K + 1) / 2 + (x + K) / 2 ^ 50"
    using x0 K1 by (simp add: field_simps)
  finally show "\<bar>of_int \<lfloor>B + 1 / 2\<rfloor> - q\<bar> < (of_int k + 1) / 2 + (x + of_int k) / 2 ^ 50"
    by (simp only: p_def K_def)
  have "(x / 2 ^ 53 + K / 2 ^ 106) + K / 2 \<le> x / 2 ^ 53 + K" using K1 by simp
  with Kc show "\<bar>of_int k * of_int c :: rat\<bar> \<le> x + x / 2 ^ 53 + of_int k"
    unfolding K_def c'_def by linarith
qed

lemma rnd_abs: "rnd \<bar>x\<bar> = \<bar>rnd x\<bar>"
proof (cases "0 \<le> x")
  case True
  then show ?thesis using rnd_nonneg [of x] by simp
next
  case False
  then have "x \<le> 0" by simp
  then have "rnd x \<le> 0" by (rule rnd_nonpos)
  then show ?thesis using False by (simp add: rnd_neg)
qed

text \<open>When \<open>k * amount\<close> times the rate is finite, so is \<open>amount\<close> times the rate.\<close>

lemma product_finite:
  fixes k :: int
  assumes k: "0 < k" and da: "double a" and f: "\<bar>rnd (rnd (of_int k * a) * r)\<bar> < pow2 1024"
  shows "\<bar>rnd (a * r)\<bar> < pow2 1024"
proof -
  have "1 \<le> k" using k by simp
  then have "(of_int 1 :: rat) \<le> of_int k" by (simp only: of_int_le_iff)
  then have "1 * \<bar>a\<bar> \<le> of_int k * \<bar>a\<bar>" by (intro mult_right_mono) simp_all
  then have "\<bar>a\<bar> \<le> \<bar>of_int k * a\<bar>" using k by (simp add: abs_mult)
  moreover have "double \<bar>a\<bar>" using da by (rule double_abs)
  ultimately have "\<bar>a\<bar> \<le> rnd \<bar>of_int k * a\<bar>" by (intro rnd_ge_double)
  then have "\<bar>a\<bar> \<le> \<bar>rnd (of_int k * a)\<bar>" by (simp only: rnd_abs)
  then have "\<bar>a\<bar> * \<bar>r\<bar> \<le> \<bar>rnd (of_int k * a)\<bar> * \<bar>r\<bar>" by (intro mult_right_mono) simp_all
  then have "\<bar>a * r\<bar> \<le> \<bar>rnd (of_int k * a) * r\<bar>" by (simp only: abs_mult)
  then have "rnd \<bar>a * r\<bar> \<le> rnd \<bar>rnd (of_int k * a) * r\<bar>" by (rule rnd_mono)
  then show ?thesis using f by (simp only: rnd_abs)
qed

lemma isFinite_fl: "isFinite (fl x) \<longleftrightarrow> \<bar>rnd x\<bar> < pow2 1024"
  by (simp add: fl_rnd)

section \<open>Finite and infinite fields\<close>

text \<open>A rounded value is a value of the format.\<close>

lemma rnd_is_double:
  assumes "\<bar>rnd x\<bar> < pow2 1024"
  shows "double (rnd x)"
proof (cases "x = 0")
  case True
  then show ?thesis by (simp add: rnd_0 double_0)
next
  case False
  obtain c where c: "ulp x = pow2 c" "- 1074 \<le> c" using ulp_exponent by blast
  define z where "z = x / ulp x"
  have u: "0 < ulp x" by (rule ulp_pos)
  have "\<bar>x\<bar> * pow2 (- 53) < ulp x" using False by (rule ulp_gt)
  then have "\<bar>x\<bar> < ulp x * 2 ^ 53" by (simp add: pow2_def field_simps)
  then have "\<bar>x\<bar> / ulp x < 2 ^ 53" using u by (simp add: field_simps)
  then have "\<bar>z\<bar> < 2 ^ 53" using u by (simp add: z_def abs_divide)
  then have "z \<le> of_int (2 ^ 53)" "of_int (- (2 ^ 53)) \<le> z" by (simp_all add: abs_less_iff)
  then have "roundHalfEven z \<le> 2 ^ 53" "- (2 ^ 53) \<le> roundHalfEven z"
    by (simp_all only: roundHalfEven_le roundHalfEven_ge)
  then have k: "\<bar>roundHalfEven z\<bar> \<le> 2 ^ 53" by simp
  have r: "rnd x = of_int (roundHalfEven z) * pow2 c" by (simp add: rnd_def z_def c(1))
  show ?thesis using assms unfolding r using k c(2) by (intro double_grid)
qed

lemma fl_not_NaN: "fl x \<noteq> NaN"
  by (simp add: fl_rnd)

lemma isFinite_Math_floor: "isFinite (Math_floor v) = isFinite v"
  by (cases v) simp_all

lemma isFinite_Math_round: "isFinite (Math_round v) = isFinite v"
  by (cases v) simp_all

lemma Math_floor_NaN: "Math_floor v = NaN \<longleftrightarrow> v = NaN"
  by (cases v) simp_all

lemma Math_round_NaN: "Math_round v = NaN \<longleftrightarrow> v = NaN"
  by (cases v) simp_all

lemma jsdiv_not_NaN: "v \<noteq> NaN \<Longrightarrow> 0 < D \<Longrightarrow> jsdiv v (Fin D) \<noteq> NaN"
  by (cases v) (simp_all add: fl_not_NaN)

lemma jsmul_not_NaN: "v \<noteq> NaN \<Longrightarrow> 0 < m \<Longrightarrow> jsmul v (Fin m) \<noteq> NaN"
  by (cases v) (simp_all add: fl_not_NaN)

lemma jssub_not_NaN: "v \<noteq> NaN \<Longrightarrow> jssub (Fin b) v \<noteq> NaN"
  by (cases v) (simp_all add: fl_not_NaN)

lemma jssub_finite: "isFinite (jssub (Fin b) v) \<Longrightarrow> isFinite v"
  by (cases v) simp_all

text \<open>The quotient by 12 of a whole number of months is finite.\<close>

lemma years_finite:
  assumes "double q"
  shows "isFinite (jsdiv (Fin (of_int \<lfloor>q\<rfloor>)) (Fin 12))"
proof -
  define M where "M = max 1 \<bar>q\<bar>"
  have "double 1" using double_int [of 1] by simp
  moreover have "double \<bar>q\<bar>" using assms by (rule double_abs)
  ultimately have dM: "double M" by (simp add: M_def max_def)
  then have dM': "double (- M)" by (simp add: double_neg)
  have "\<bar>of_int \<lfloor>q\<rfloor> :: rat\<bar> \<le> \<bar>q\<bar> + 1" by linarith
  then have "\<bar>of_int \<lfloor>q\<rfloor> / 12 :: rat\<bar> \<le> (\<bar>q\<bar> + 1) / 12" by simp
  also have "\<dots> \<le> M" unfolding M_def by (simp add: max_def)
  finally have "- M \<le> of_int \<lfloor>q\<rfloor> / 12" "of_int \<lfloor>q\<rfloor> / 12 \<le> M" by (simp_all add: abs_le_iff)
  then have "fl (of_int \<lfloor>q\<rfloor> / 12) = Fin (rnd (of_int \<lfloor>q\<rfloor> / 12))"
    using dM' dM by (intro fl_between(1))
  then show ?thesis by simp
qed

text \<open>The subtraction of the product from the budget does not overflow: both have one sign.\<close>

lemma difference_finite:
  assumes db: "double b" and m: "0 < m" and q: "\<bar>rnd (b / m)\<bar> < pow2 1024"
    and P: "\<bar>rnd (of_int \<lfloor>rnd (b / m)\<rfloor> * m)\<bar> < pow2 1024"
  shows "isFinite (jssub (Fin b) (Fin (rnd (of_int \<lfloor>rnd (b / m)\<rfloor> * m))))"
proof -
  define n where "n = \<lfloor>rnd (b / m)\<rfloor>"
  define P where "P = rnd (of_int n * m)"
  have dP: "double P" unfolding P_def n_def using assms(4) by (rule rnd_is_double)
  have "fl (b - P) = Fin (rnd (b - P))"
  proof (cases "0 \<le> b")
    case True
    then have "0 \<le> b / m" using m by simp
    then have "0 \<le> rnd (b / m)" by (rule rnd_nonneg)
    then have "0 \<le> n" by (simp add: n_def)
    then have "0 \<le> of_int n * m" using m by simp
    then have "0 \<le> P" unfolding P_def by (rule rnd_nonneg)
    then have "- P \<le> b - P" "b - P \<le> b" using True by simp_all
    moreover have "double (- P)" using dP by (simp add: double_neg)
    ultimately show ?thesis using db by (intro fl_between(1))
  next
    case False
    then have "b / m \<le> 0" using m by (simp add: divide_le_0_iff)
    then have "rnd (b / m) \<le> 0" by (rule rnd_nonpos)
    then have "rnd (b / m) < of_int 1" by simp
    then have "n < 1" unfolding n_def by (simp only: floor_less_iff)
    then have "(of_int n :: rat) \<le> 0" by simp
    then have "of_int n * m \<le> 0" using m by (simp add: mult_le_0_iff)
    then have "P \<le> 0" unfolding P_def by (rule rnd_nonpos)
    then have "b \<le> b - P" "b - P \<le> - P" using False by simp_all
    moreover have "double (- P)" using dP by (simp add: double_neg)
    ultimately show ?thesis using db by (intro fl_between(1))
  qed
  then show ?thesis by (simp add: P_def n_def)
qed

lemma calculateLongevity_finite_iff:
  assumes db: "double b" and dm: "double m" and m: "0 < m"
  defines "r \<equiv> calculateLongevity (Fin b) (Fin m)"
  shows "months r \<noteq> NaN" and "years r \<noteq> NaN" and "remainder r \<noteq> NaN" and "daysApprox r \<noteq> NaN"
    and "(isFinite (months r) \<and> isFinite (years r) \<and> isFinite (remainder r)
          \<and> isFinite (daysApprox r)) \<longleftrightarrow>
         (isFinite (jsdiv (Fin b) (Fin m)) \<and> isFinite (jsmul (months r) (Fin m))
          \<and> isFinite (jsdiv (remainder r) (js_or_num (Some (jsdiv (Fin m) (Fin 30))) (Fin 1))))"
proof -
  note g = calculateLongevity_behind_guard [OF m, of b, folded r_def]
  note gd = daysApprox_behind_guard [OF m, of b, folded r_def]
  obtain D where D: "js_or_num (Some (jsdiv (Fin m) (Fin 30))) (Fin 1) = Fin D" "0 < D"
    using dailyExpense_double [OF dm m] by blast
  have q: "jsdiv (Fin b) (Fin m) = fl (b / m)" using m by simp
  show mo: "months r \<noteq> NaN" unfolding g(1) q by (simp add: Math_floor_NaN fl_not_NaN)
  have "(12::rat) > 0" by simp
  with mo show "years r \<noteq> NaN" unfolding g(2) by (simp only: Math_floor_NaN jsdiv_not_NaN not_False_eq_True)
  have "jsmul (months r) (Fin m) \<noteq> NaN" using mo m by (rule jsmul_not_NaN)
  then have "jssub (Fin b) (jsmul (months r) (Fin m)) \<noteq> NaN" by (rule jssub_not_NaN)
  then show re: "remainder r \<noteq> NaN" unfolding g(3) by (simp only: Math_round_NaN not_False_eq_True)
  then have "jsdiv (remainder r) (Fin D) \<noteq> NaN" using D(2) by (rule jsdiv_not_NaN)
  then show "daysApprox r \<noteq> NaN" unfolding gd D(1) by (simp only: Math_floor_NaN not_False_eq_True)
  have fm: "isFinite (months r) = isFinite (jsdiv (Fin b) (Fin m))"
    unfolding g(1) by (rule isFinite_Math_floor)
  have fd: "isFinite (daysApprox r) =
      isFinite (jsdiv (remainder r) (js_or_num (Some (jsdiv (Fin m) (Fin 30))) (Fin 1)))"
    unfolding gd by (rule isFinite_Math_floor)
  have fr1: "isFinite (remainder r) \<Longrightarrow> isFinite (jsmul (months r) (Fin m))"
    unfolding g(3) isFinite_Math_round by (rule jssub_finite)
  have fin: "isFinite (years r) \<and> (isFinite (jsmul (months r) (Fin m)) \<longrightarrow> isFinite (remainder r))"
    if f: "isFinite (jsdiv (Fin b) (Fin m))"
  proof -
    have qf: "\<bar>rnd (b / m)\<bar> < pow2 1024" using f unfolding q by (simp only: isFinite_fl)
    then have qq: "fl (b / m) = Fin (rnd (b / m))" by (rule fl_finite)
    have mr: "months r = Fin (of_int \<lfloor>rnd (b / m)\<rfloor>)" unfolding g(1) q qq by simp
    have "double (rnd (b / m))" using qf by (rule rnd_is_double)
    then have y: "isFinite (years r)"
      unfolding g(2) mr isFinite_Math_floor by (rule years_finite)
    have "isFinite (remainder r)" if p: "isFinite (jsmul (months r) (Fin m))"
    proof -
      have pf: "\<bar>rnd (of_int \<lfloor>rnd (b / m)\<rfloor> * m)\<bar> < pow2 1024"
        using p unfolding mr by (simp add: isFinite_fl)
      then have pp: "jsmul (months r) (Fin m) = Fin (rnd (of_int \<lfloor>rnd (b / m)\<rfloor> * m))"
        unfolding mr by (simp add: fl_finite)
      show ?thesis unfolding g(3) isFinite_Math_round pp
        using db m qf pf by (rule difference_finite)
    qed
    with y show ?thesis by blast
  qed
  show "(isFinite (months r) \<and> isFinite (years r) \<and> isFinite (remainder r)
          \<and> isFinite (daysApprox r)) \<longleftrightarrow>
         (isFinite (jsdiv (Fin b) (Fin m)) \<and> isFinite (jsmul (months r) (Fin m))
          \<and> isFinite (jsdiv (remainder r) (js_or_num (Some (jsdiv (Fin m) (Fin 30))) (Fin 1))))"
    using fm fd fr1 fin by blast
qed


section \<open>Concrete roundings\<close>








lemma daily_25000000: "jsdiv (Fin 25000000) (Fin 30) = Fin (7158278826666667 / 8589934592)"
proof -
  have "fl (25000000 / 30) = Fin (of_int 7158278826666667 * pow2 (- 33))"
    by (rule fl_eval [where e = 19]) (simp_all add: pow2_def)
  then show ?thesis by (simp add: pow2_def)
qed

lemma days_10000000:
  "jsdiv (Fin 10000000) (Fin (7158278826666667 / 8589934592)) = Fin 12"
proof -
  have "fl (10000000 / (7158278826666667 / 8589934592)) =
      Fin (of_int 6755399441055744 * pow2 (- 49))"
    by (rule fl_eval [where e = 3]) (simp_all add: pow2_def)
  then show ?thesis by (simp add: pow2_def)
qed

lemma fl_half: "fl (1 / 2) = Fin (1 / 2)"
proof -
  have "fl (1 / 2) = Fin (of_int 4503599627370496 * pow2 (- 53))"
    by (rule fl_eval [where e = "- 1"]) (simp_all add: pow2_def)
  then show ?thesis by (simp add: pow2_def)
qed

lemma fl_3_halves: "fl (3 / 2) = Fin (3 / 2)"
proof -
  have "fl (3 / 2) = Fin (of_int 6755399441055744 * pow2 (- 52))"
    by (rule fl_eval [where e = 0]) (simp_all add: pow2_def)
  then show ?thesis by (simp add: pow2_def)
qed

lemma fl_minus_3_halves: "fl (- (3 / 2)) = Fin (- (3 / 2))"
proof -
  have "fl (- (3 / 2)) = Fin (of_int (- 6755399441055744) * pow2 (- 52))"
    by (rule fl_eval [where e = 0]) (simp_all add: pow2_def)
  then show ?thesis by (simp add: pow2_def)
qed

lemma fl_2_1023: "fl (2 ^ 1023) = Fin (2 ^ 1023)"
proof (rule fl_exact)
  have "ulp (2 ^ 1023) = pow2 (max 1023 (- 1022) - 52)"
    by (rule ulp_eq) (simp_all add: pow2_def)
  then have "ulp (2 ^ 1023) = 2 ^ 971" by (simp add: pow2_def)
  then show "(2 ^ 1023 :: rat) / ulp (2 ^ 1023) = of_int (2 ^ 52)" by simp
  show "\<bar>2 ^ 1023 :: rat\<bar> < pow2 1024" by (simp add: pow2_def)
qed

lemma fl_2_1024: "fl (2 ^ 1024) = PInf"
  by (rule fl_overflow) (simp add: pow2_def)

lemma double_dyadic:
  assumes "\<bar>j\<bar> \<le> 2 ^ 53" and "k \<le> 1074"
  shows "fl (of_int j / 2 ^ k) = Fin (of_int j / 2 ^ k)"
proof -
  have p: "pow2 (- int k) = 1 / 2 ^ k" by (simp add: pow2_def)
  have "(of_int \<bar>j\<bar> :: rat) \<le> of_int (2 ^ 53)" using assms(1) by (simp only: of_int_le_iff)
  then have "\<bar>of_int j :: rat\<bar> \<le> 2 ^ 53" by simp
  moreover have "\<bar>of_int j :: rat\<bar> * 1 \<le> \<bar>of_int j\<bar> * 2 ^ k"
    by (intro mult_left_mono) simp_all
  then have "\<bar>of_int j / 2 ^ k :: rat\<bar> \<le> \<bar>of_int j\<bar>"
    by (simp add: abs_divide field_simps)
  ultimately have "\<bar>of_int j / 2 ^ k :: rat\<bar> < pow2 1024" using pow2_53_less_1024 by linarith
  then have "\<bar>of_int j * pow2 (- int k)\<bar> < pow2 1024" by (simp add: p)
  moreover have "- 1074 \<le> - int k" using assms(2) by simp
  ultimately have "double (of_int j * pow2 (- int k))" using assms(1) by (intro double_grid)
  then show ?thesis by (simp add: double_def p)
qed


lemma fl_eval_tie:
  assumes "pow2 e \<le> \<bar>x\<bar>" and "\<bar>x\<bar> < pow2 (e + 1)" and "e \<le> 1022"
    and "u = pow2 (max e (- 1022) - 52)"
    and "x / u = of_int f + 1 / 2"
  shows "fl x = Fin (of_int (if even f then f else f + 1) * u)"
proof -
  have u: "ulp x = u" using ulp_eq [OF assms(1,2)] assms(4) by simp
  have "rnd x = of_int (if even f then f else f + 1) * u"
    unfolding rnd_def u assms(5) by (simp only: roundHalfEven_tie)
  moreover have "fl x = Fin (rnd x)"
  proof -
    have "\<bar>of_int 1 * pow2 1023\<bar> < pow2 1024"
      using pow2_strict_mono [of 1023 1024] pow2_pos [of 1023] by simp
    then have "double (of_int 1 * pow2 1023)" by (intro double_grid) simp_all
    then have d: "double (pow2 1023)" by simp
    then have d': "double (- pow2 1023)" by (simp add: double_neg)
    have "pow2 (e + 1) \<le> pow2 1023" using assms(3) by (intro pow2_mono) simp
    then have "- pow2 1023 \<le> x" "x \<le> pow2 1023" using assms(2) by (simp_all add: abs_less_iff)
    then show ?thesis using d d' by (intro fl_between(1))
  qed
  ultimately show ?thesis by simp
qed












lemma daily_underflow: "jsdiv (Fin (1 / 2 ^ 1074)) (Fin 30) = Fin 0"
proof -
  have "fl (1 / 2 ^ 1074 / 30) = Fin (of_int 0 * pow2 (- 1074))"
    by (rule fl_eval [where e = "- 1079"]) (simp_all add: pow2_def)
  then show ?thesis by simp
qed

lemma product_3_1999:
  "jsmul (Fin 3) (Fin (5626684784446013 / 281474976710656)) = Fin (2110006794167255 / 35184372088832)"
proof -
  have "fl (16880054353338039 / 281474976710656) =
      Fin (of_int (if even (8440027176669019 :: int) then 8440027176669019 else 8440027176669019 + 1)
        * pow2 (- 47))"
    by (rule fl_eval_tie [where e = 5]) (simp_all add: pow2_def)
  then show ?thesis by (simp add: pow2_def)
qed

lemma product_5997_26500:
  "jsmul (Fin (2110006794167255 / 35184372088832)) (Fin 26500) = Fin 1589205"
proof -
  have "fl (13978795011358064375 / 8796093022208) = Fin (of_int 6825583501639680 * pow2 (- 32))"
    by (rule fl_eval [where e = 20]) (simp_all add: pow2_def)
  then show ?thesis by (simp add: pow2_def)
qed

lemma product_1999_26500:
  "jsmul (Fin (5626684784446013 / 281474976710656)) (Fin 26500) = Fin 529735"
proof -
  have "fl (37276786696954836125 / 70368744177664) = Fin (of_int 4550389001093120 * pow2 (- 33))"
    by (rule fl_eval [where e = 19]) (simp_all add: pow2_def)
  then show ?thesis by (simp add: pow2_def)
qed

lemma product_12_large:
  "jsmul (Fin 12) (Fin (3072739416609059 / 2)) = Fin 18436436499654352"
proof -
  have "fl 18436436499654354 =
      Fin (of_int (if even (4609109124913588 :: int) then 4609109124913588 else 4609109124913588 + 1)
        * pow2 2)"
    by (rule fl_eval_tie [where e = 54]) (simp_all add: pow2_def)
  then show ?thesis by (simp add: pow2_def)
qed

lemma product_large_rate:
  "jsmul (Fin 18436436499654352) (Fin (3436607100782129 / 18014398509481984)) = Fin 3517119295128377"
proof -
  have "fl (3959924286739435329508584917213 / 1125899906842624) =
      Fin (of_int 7034238590256754 * pow2 (- 1))"
    by (rule fl_eval [where e = 51]) (simp_all add: pow2_def)
  then show ?thesis by (simp add: pow2_def)
qed

lemma product_amount_rate:
  "jsmul (Fin (3072739416609059 / 2)) (Fin (3436607100782129 / 18014398509481984)) =
     Fin (586186549188063 / 2)"
proof -
  have "fl (10559798097971828690891926706611 / 36028797018963968) =
      Fin (of_int 4689492393504504 * pow2 (- 4))"
    by (rule fl_eval [where e = 48]) (simp_all add: pow2_def)
  then show ?thesis by (simp add: pow2_def)
qed


lemma quotient_2_1025: "jsdiv (Fin (2 ^ 1023)) (Fin (1 / 4)) = PInf"
proof -
  have "fl (2 ^ 1023 / (1 / 4)) = PInf" by (rule fl_overflow) (simp add: pow2_def)
  then show ?thesis by simp
qed

lemmas js_arith_simps =
  jsdiv.simps jsmul.simps jssub.simps jsle.simps Math_floor.simps Math_round.simps

section \<open>The end-to-end scenarios\<close>

text \<open>
  C8. With a monthly cost of 25,000,000, a budget of 300,000,000 lasts 12 months, 1 year,
  with nothing left and 0 days; a budget of 310,000,000 lasts 12 months, 1 year, with
  10,000,000 left, which covers 12 days.
\<close>

theorem longevity_scenarios:
  "calculateLongevity (Fin 300000000) (Fin 25000000) =
     \<lparr>months = Fin 12, years = Fin 1, remainder = Fin 0, daysApprox = Fin 0\<rparr>
 \<and> calculateLongevity (Fin 310000000) (Fin 25000000) =
     \<lparr>months = Fin 12, years = Fin 1, remainder = Fin 10000000, daysApprox = Fin 12\<rparr>"
proof -
  have guard: "\<not> jsle (Fin 25000000) (Fin 0)" by simp
  have m1: "Math_floor (jsdiv (Fin 300000000) (Fin 25000000)) = Fin 12"
    using Math_floor_div_int [of 300000000 25000000] by simp
  have m2: "Math_floor (jsdiv (Fin 310000000) (Fin 25000000)) = Fin 12"
    using Math_floor_div_int [of 310000000 25000000] by simp
  have y: "Math_floor (jsdiv (Fin 12) (Fin 12)) = Fin 1"
    using Math_floor_div_int [of 12 12] by simp
  have p: "jsmul (Fin 12) (Fin 25000000) = Fin 300000000"
    using jsmul_int [of 12 25000000] by simp
  have s1: "jssub (Fin 300000000) (Fin 300000000) = Fin 0"
    using jssub_int [of 300000000 300000000] by simp
  have s2: "jssub (Fin 310000000) (Fin 300000000) = Fin 10000000"
    using jssub_int [of 310000000 300000000] by simp
  have r1: "Math_round (Fin 0) = Fin 0"
    using Math_round_int [of 0] by simp
  have r2: "Math_round (Fin 10000000) = Fin 10000000"
    using Math_round_int [of 10000000] by simp
  have d1: "Math_floor (jsdiv (Fin 0) (Fin (7158278826666667 / 8589934592))) = Fin 0"
    by (simp add: fl_def)
  have d2: "Math_floor (jsdiv (Fin 10000000) (Fin (7158278826666667 / 8589934592))) = Fin 12"
    by (simp only: days_10000000) simp
  have "calculateLongevity (Fin 300000000) (Fin 25000000) =
     \<lparr>months = Fin 12, years = Fin 1, remainder = Fin 0, daysApprox = Fin 0\<rparr>"
    unfolding calculateLongevity_def Let_def using guard
    by (simp add: m1 y p s1 r1 daily_25000000 d1 del: js_arith_simps)
  moreover have "calculateLongevity (Fin 310000000) (Fin 25000000) =
     \<lparr>months = Fin 12, years = Fin 1, remainder = Fin 10000000, daysApprox = Fin 12\<rparr>"
    unfolding calculateLongevity_def Let_def using guard
    by (simp add: m2 y p s2 r2 daily_25000000 d2 del: js_arith_simps)
  ultimately show ?thesis by simp
qed

theorem longevity_scenarios_witness:
  "months (calculateLongevity (Fin 310000000) (Fin 25000000)) = Fin 12
 \<and> daysApprox (calculateLongevity (Fin 310000000) (Fin 25000000)) = Fin 12
 \<and> remainder (calculateLongevity (Fin 300000000) (Fin 25000000)) = Fin 0"
  using longevity_scenarios by simp

section \<open>Months, years and remainder\<close>




section \<open>Negative budgets\<close>




section \<open>Conversion\<close>

text \<open>
  C4. \<^verbatim>\<open>convertAmount\<close> returns 0 when an argument is not finite, and otherwise the
  binary64 product of the arguments rounded by \<^verbatim>\<open>Math.round\<close>, whose rule is fixed:
  the nearest integer, a tie going up. In particular 1000 at the rate 24500 gives 24500000.
\<close>

theorem convertAmount_result:
  "(\<not> isFinite amount \<or> \<not> isFinite rate \<longrightarrow> convertAmount amount rate = Fin 0)
 \<and> (isFinite amount \<and> isFinite rate \<longrightarrow>
      convertAmount amount rate = Math_round (jsmul amount rate))
 \<and> Math_round (Fin p) = Fin (of_int \<lfloor>p + 1 / 2\<rfloor>)
 \<and> convertAmount (Fin 1000) (Fin 24500) = Fin 24500000"
proof -
  have "jsmul (Fin 1000) (Fin 24500) = Fin 24500000"
    using jsmul_int [of 1000 24500] by simp
  moreover have "Math_round (Fin 24500000) = Fin 24500000"
    using Math_round_int [of 24500000] by simp
  ultimately have "convertAmount (Fin 1000) (Fin 24500) = Fin 24500000"
    by (simp add: convertAmount_def del: js_arith_simps)
  then show ?thesis by (auto simp add: convertAmount_def)
qed

theorem convertAmount_result_witness:
  "convertAmount NaN (Fin 24500) = Fin 0
 \<and> convertAmount (Fin 1000) PInf = Fin 0
 \<and> convertAmount (Fin 3) (Fin (1 / 2)) = Fin 2
 \<and> convertAmount (Fin (- 3)) (Fin (1 / 2)) = Fin (- 1)"
proof -
  have "jsmul (Fin 3) (Fin (1 / 2)) = Fin (3 / 2)" by (simp add: fl_3_halves)
  moreover have "Math_round (Fin (3 / 2)) = Fin 2" by simp
  moreover have "jsmul (Fin (- 3)) (Fin (1 / 2)) = Fin (- (3 / 2))" by (simp add: fl_minus_3_halves)
  moreover have "Math_round (Fin (- (3 / 2))) = Fin (- 1)" by simp
  ultimately show ?thesis
    using convertAmount_result [of NaN "Fin 24500" 0]
      convertAmount_result [of "Fin 1000" PInf 0]
      convertAmount_result [of "Fin 3" "Fin (1 / 2)" 0]
      convertAmount_result [of "Fin (- 3)" "Fin (1 / 2)" 0]
    by (simp del: js_arith_simps)
qed


text \<open>
  Where no multiplication rounds, the two sides of the linearity law differ by the
  roundings of \<^verbatim>\<open>Math.round\<close> alone.
\<close>

lemma convertAmount_linear_exact:
  fixes k :: int
  assumes "0 < k"
    and "jsmul (Fin (of_int k)) (Fin a) = Fin (of_int k * a)"
    and "jsmul (Fin a) (Fin r) = Fin (a * r)"
    and "jsmul (Fin (of_int k * a)) (Fin r) = Fin (of_int k * a * r)"
    and "\<bar>k * \<lfloor>a * r + 1 / 2\<rfloor>\<bar> < 2 ^ 53"
  shows "\<exists>p q. convertAmount (jsmul (Fin (of_int k)) (Fin a)) (Fin r) = Fin p
           \<and> jsmul (Fin (of_int k)) (convertAmount (Fin a) (Fin r)) = Fin q
           \<and> \<bar>p - q\<bar> \<le> (of_int k + 1) / 2
           \<and> (a * r \<in> \<int> \<longrightarrow> p = q)"
proof -
  define t where "t = a * r"
  define c where "c = \<lfloor>t + 1 / 2\<rfloor>"
  define p :: rat where "p = of_int \<lfloor>of_int k * t + 1 / 2\<rfloor>"
  define q :: rat where "q = of_int (k * c)"
  have left: "convertAmount (jsmul (Fin (of_int k)) (Fin a)) (Fin r) = Fin p"
    unfolding convertAmount_def Let_def assms(2)
    by (simp add: assms(4) p_def t_def mult.assoc del: jsmul.simps)
  have inner: "convertAmount (Fin a) (Fin r) = Fin (of_int c)"
    unfolding convertAmount_def Let_def
    by (simp add: assms(3) c_def t_def del: jsmul.simps)
  have "jsmul (Fin (of_int k)) (Fin (of_int c)) = Fin (of_int (k * c))"
    using assms(5) unfolding c_def t_def by (rule jsmul_int)
  then have right: "jsmul (Fin (of_int k)) (convertAmount (Fin a) (Fin r)) = Fin q"
    by (simp only: inner q_def)
  have kpos: "(0::rat) < of_int k" using assms(1) by simp
  define w where "w = of_int k * t"
  have "\<bar>p - w\<bar> \<le> 1 / 2" unfolding p_def w_def by (rule Math_round_near)
  then have pw: "p - w \<le> 1 / 2 \<and> - (p - w) \<le> 1 / 2" by (simp only: abs_le_iff)
  have "\<bar>of_int c - t\<bar> \<le> 1 / 2" unfolding c_def by (rule Math_round_near)
  then have "of_int k * \<bar>of_int c - t\<bar> \<le> of_int k * (1 / 2)"
    using kpos by (simp only: mult_le_cancel_left_pos)
  then have "\<bar>of_int k * (of_int c - t)\<bar> \<le> of_int k / 2"
    using kpos by (simp add: abs_mult)
  then have "\<bar>q - w\<bar> \<le> of_int k / 2"
    by (simp add: q_def w_def algebra_simps)
  then have qw: "q - w \<le> of_int k / 2 \<and> - (q - w) \<le> of_int k / 2" by (simp only: abs_le_iff)
  have "p - q \<le> (of_int k + 1) / 2"
    using pw [THEN conjunct1] qw [THEN conjunct2] by (simp add: field_simps)
  moreover have "- (p - q) \<le> (of_int k + 1) / 2"
    using pw [THEN conjunct2] qw [THEN conjunct1] by (simp add: field_simps)
  ultimately have close: "\<bar>p - q\<bar> \<le> (of_int k + 1) / 2" by (simp only: abs_le_iff)
  have whole: "p = q" if "a * r \<in> \<int>"
  proof -
    from that obtain m :: int where m: "t = of_int m" unfolding t_def by (auto elim: Ints_cases)
    have "c = m" unfolding c_def m by (rule floor_unique) simp_all
    moreover have "\<lfloor>(of_int k :: rat) * of_int m + 1 / 2\<rfloor> = k * m"
      by (rule floor_unique) simp_all
    ultimately show ?thesis by (simp add: p_def q_def m)
  qed
  from left right close whole show ?thesis by blast
qed

text \<open>
  C7, on binary64 values. Let \<open>k\<close> be a positive integer, and let no multiplication
  overflow: \<open>k * amount\<close>, that product times the rate, and \<open>k\<close> times the converted
  amount are finite. Then the conversion of \<open>k * amount\<close> and \<open>k\<close> times the
  conversion of \<open>amount\<close> are finite and differ by less than
  \<open>(k + 1) / 2 + (\<bar>k * amount * rate\<bar> + k) / 2 ^ 50\<close>: the rounding of
  \<^verbatim>\<open>Math.round\<close>, taken once on one side and \<open>k\<close> times on the other, and the
  roundings of the multiplications. For \<open>\<bar>k * amount * rate\<bar> + k \<le> 2 ^ 49\<close> the two
  sides differ by at most \<open>(k + 1) / 2\<close>; so they do when no multiplication rounds, and
  then they are equal when \<open>amount * rate\<close> is an integer.
\<close>

theorem convertAmount_linear_within:
  fixes k :: int
  assumes "0 < k" and "fl (of_int k) = Fin (of_int k)"
    and "fl amount = Fin amount" and "fl rate = Fin rate"
    and "isFinite (jsmul (Fin (of_int k)) (Fin amount))"
    and "isFinite (jsmul (jsmul (Fin (of_int k)) (Fin amount)) (Fin rate))"
    and "isFinite (jsmul (Fin (of_int k)) (convertAmount (Fin amount) (Fin rate)))"
  shows "\<exists>p q. convertAmount (jsmul (Fin (of_int k)) (Fin amount)) (Fin rate) = Fin p
           \<and> jsmul (Fin (of_int k)) (convertAmount (Fin amount) (Fin rate)) = Fin q
           \<and> \<bar>p - q\<bar> < (of_int k + 1) / 2 + (\<bar>of_int k * amount * rate\<bar> + of_int k) / 2 ^ 50
           \<and> (\<bar>of_int k * amount * rate\<bar> + of_int k \<le> 2 ^ 49 \<longrightarrow>
                \<bar>p - q\<bar> \<le> (of_int k + 1) / 2)
           \<and> (jsmul (Fin (of_int k)) (Fin amount) = Fin (of_int k * amount)
                \<and> jsmul (Fin amount) (Fin rate) = Fin (amount * rate)
                \<and> jsmul (Fin (of_int k * amount)) (Fin rate) = Fin (of_int k * amount * rate)
                \<and> \<bar>k * \<lfloor>amount * rate + 1 / 2\<rfloor>\<bar> < 2 ^ 53 \<longrightarrow>
                \<bar>p - q\<bar> \<le> (of_int k + 1) / 2 \<and> (amount * rate \<in> \<int> \<longrightarrow> p = q))"
proof -
  define A where "A = rnd (of_int k * amount)"
  define B where "B = rnd (A * rate)"
  define C where "C = rnd (amount * rate)"
  define c where "c = \<lfloor>C + 1 / 2\<rfloor>"
  define q where "q = rnd (of_int k * of_int c)"
  define p :: rat where "p = of_int \<lfloor>B + 1 / 2\<rfloor>"
  define x where "x = \<bar>of_int k * amount * rate\<bar>"
  have da: "double amount" and dr: "double rate" using assms(3,4) by (simp_all add: double_def)
  have r: "\<bar>rate\<bar> < pow2 1024" using dr by (rule double_less)
  have fA: "jsmul (Fin (of_int k)) (Fin amount) = Fin A"
    using fl_isFinite [of "of_int k * amount"] assms(5) by (simp add: A_def)
  have fB: "jsmul (Fin A) (Fin rate) = Fin B"
    using fl_isFinite [of "A * rate"] assms(6) unfolding fA by (simp add: B_def)
  have "\<bar>rnd (rnd (of_int k * amount) * rate)\<bar> < pow2 1024"
    using assms(6) unfolding fA by (simp add: isFinite_fl A_def)
  with assms(1) da have "\<bar>rnd (amount * rate)\<bar> < pow2 1024" by (rule product_finite)
  then have fC: "jsmul (Fin amount) (Fin rate) = Fin C" by (simp add: fl_finite C_def)
  have left: "convertAmount (jsmul (Fin (of_int k)) (Fin amount)) (Fin rate) = Fin p"
    unfolding fA convertAmount_def Let_def by (simp add: fB p_def del: jsmul.simps)
  have inner: "convertAmount (Fin amount) (Fin rate) = Fin (of_int c)"
    unfolding convertAmount_def Let_def by (simp add: fC c_def del: jsmul.simps)
  have right: "jsmul (Fin (of_int k)) (convertAmount (Fin amount) (Fin rate)) = Fin q"
    using fl_isFinite [of "of_int k * of_int c"] assms(7) unfolding inner by (simp add: q_def)
  note e = linear_error [OF assms(1) r, of amount, folded A_def, folded B_def, folded C_def,
      folded c_def, folded q_def, folded x_def, folded p_def]
  have gen: "\<bar>p - q\<bar> < (of_int k + 1) / 2 + (x + of_int k) / 2 ^ 50" by (rule e(1))
  have small: "\<bar>p - q\<bar> \<le> (of_int k + 1) / 2" if "x + of_int k \<le> 2 ^ 49"
  proof -
    have x0: "0 \<le> x" by (simp add: x_def)
    have k0: "(0::rat) < of_int k" using assms(1) by simp
    have "x / 2 ^ 53 \<le> x" using x0 by (simp add: field_simps)
    then have "\<bar>of_int k * of_int c :: rat\<bar> \<le> 2 * 2 ^ 49" using e(2) that k0 x0 by linarith
    then have "\<bar>of_int (k * c) :: rat\<bar> < of_int (2 ^ 53)" by simp
    then have "(of_int \<bar>k * c\<bar> :: rat) < of_int (2 ^ 53)" by (simp only: of_int_abs)
    then have "\<bar>k * c\<bar> < 2 ^ 53" by (simp only: of_int_less_iff)
    then have "double (of_int (k * c))" by (intro double_int) simp
    then have "rnd (of_int (k * c)) = of_int (k * c)" by (rule double_rnd)
    then have q: "q = of_int (k * c)" by (simp add: q_def)
    define d where "d = \<lfloor>B + 1 / 2\<rfloor> - k * c"
    have pq: "p - q = of_int d" by (simp add: p_def q d_def)
    have "(x + of_int k) / 2 ^ 50 \<le> 1 / 2" using that by simp
    with gen have "\<bar>of_int d :: rat\<bar> < (of_int k + 1) / 2 + 1 / 2" unfolding pq by linarith
    moreover have "(of_int k + 1) / 2 + 1 / 2 = (of_int k + 2) / (2::rat)" by (simp add: field_simps)
    ultimately have "\<bar>of_int d :: rat\<bar> < (of_int k + 2) / 2" by (simp only:)
    then have "\<bar>of_int d :: rat\<bar> * 2 < of_int k + 2" by (simp only: pos_less_divide_eq zero_less_numeral)
    then have "2 * \<bar>of_int d :: rat\<bar> < of_int k + 2" by (simp only: mult.commute)
    then have "(of_int (2 * \<bar>d\<bar>) :: rat) < of_int (k + 2)" by simp
    then have "2 * \<bar>d\<bar> < k + 2" by (simp only: of_int_less_iff)
    then have "2 * \<bar>d\<bar> \<le> k + 1" by simp
    then have "(of_int (2 * \<bar>d\<bar>) :: rat) \<le> of_int (k + 1)" by (simp only: of_int_le_iff)
    then have "\<bar>of_int d :: rat\<bar> * 2 \<le> of_int k + 1" by (simp add: mult.commute)
    then have "\<bar>of_int d :: rat\<bar> \<le> (of_int k + 1) / 2"
      by (simp only: pos_le_divide_eq zero_less_numeral)
    then show ?thesis by (simp only: pq)
  qed
  have exact: "\<bar>p - q\<bar> \<le> (of_int k + 1) / 2 \<and> (amount * rate \<in> \<int> \<longrightarrow> p = q)"
    if h: "jsmul (Fin (of_int k)) (Fin amount) = Fin (of_int k * amount)
         \<and> jsmul (Fin amount) (Fin rate) = Fin (amount * rate)
         \<and> jsmul (Fin (of_int k * amount)) (Fin rate) = Fin (of_int k * amount * rate)
         \<and> \<bar>k * \<lfloor>amount * rate + 1 / 2\<rfloor>\<bar> < 2 ^ 53"
  proof -
    obtain p' q' where "convertAmount (jsmul (Fin (of_int k)) (Fin amount)) (Fin rate) = Fin p'"
      "jsmul (Fin (of_int k)) (convertAmount (Fin amount) (Fin rate)) = Fin q'"
      "\<bar>p' - q'\<bar> \<le> (of_int k + 1) / 2" "amount * rate \<in> \<int> \<longrightarrow> p' = q'"
      using convertAmount_linear_exact [OF assms(1) h [THEN conjunct1]
          h [THEN conjunct2, THEN conjunct1] h [THEN conjunct2, THEN conjunct2, THEN conjunct1]
          h [THEN conjunct2, THEN conjunct2, THEN conjunct2]]
      by blast
    then show ?thesis using left right by simp
  qed
  show ?thesis
    using left right gen small exact unfolding x_def by blast
qed

theorem convertAmount_linear_within_witness:
  "jsmul (Fin 3) (Fin (5626684784446013 / 281474976710656)) \<noteq> Fin (3 * (5626684784446013 / 281474976710656))
 \<and> (\<exists>p q. convertAmount (jsmul (Fin 3) (Fin (5626684784446013 / 281474976710656))) (Fin 26500) = Fin p
         \<and> jsmul (Fin 3) (convertAmount (Fin (5626684784446013 / 281474976710656)) (Fin 26500)) = Fin q
         \<and> \<bar>p - q\<bar> \<le> 2 \<and> p = 1589205 \<and> q = 1589205)"
proof -
  define a :: rat where "a = 5626684784446013 / 281474976710656"
  have w1: "jsmul (Fin 3) (Fin a) = Fin (2110006794167255 / 35184372088832)"
    unfolding a_def by (rule product_3_1999)
  have w3: "jsmul (Fin a) (Fin 26500) = Fin 529735" unfolding a_def by (rule product_1999_26500)
  have r3: "Math_round (Fin 529735) = Fin 529735" using Math_round_int [of 529735] by simp
  have r2: "Math_round (Fin 1589205) = Fin 1589205" using Math_round_int [of 1589205] by simp
  have c: "convertAmount (Fin a) (Fin 26500) = Fin 529735"
    by (simp add: convertAmount_def w3 r3 del: js_arith_simps)
  have w4: "jsmul (Fin 3) (Fin 529735) = Fin 1589205" using jsmul_int [of 3 529735] by simp
  have left: "convertAmount (jsmul (Fin 3) (Fin a)) (Fin 26500) = Fin 1589205"
    by (simp add: convertAmount_def w1 product_5997_26500 r2 del: js_arith_simps)
  have right: "jsmul (Fin 3) (convertAmount (Fin a) (Fin 26500)) = Fin 1589205"
    by (simp only: c w4)
  have h2: "fl (of_int 3) = Fin (of_int 3)" using fl_int [of 3] by simp
  have h3: "fl a = Fin a" using double_dyadic [of 5626684784446013 48] by (simp add: a_def)
  have h4: "fl 26500 = Fin 26500" using fl_int [of 26500] by simp
  have h5: "isFinite (jsmul (Fin (of_int 3)) (Fin a))" by (simp add: w1 del: jsmul.simps)
  have h6: "isFinite (jsmul (jsmul (Fin (of_int 3)) (Fin a)) (Fin 26500))"
    by (simp add: w1 product_5997_26500 del: jsmul.simps)
  have h7: "isFinite (jsmul (Fin (of_int 3)) (convertAmount (Fin a) (Fin 26500)))"
    by (simp add: c w4 del: jsmul.simps)
  have small: "\<bar>of_int 3 * a * 26500\<bar> + of_int 3 \<le> 2 ^ 49" by (simp add: a_def)
  obtain p q where pq: "convertAmount (jsmul (Fin (of_int 3)) (Fin a)) (Fin 26500) = Fin p"
      "jsmul (Fin (of_int 3)) (convertAmount (Fin a) (Fin 26500)) = Fin q"
      "\<bar>of_int 3 * a * 26500\<bar> + of_int 3 \<le> 2 ^ 49 \<longrightarrow> \<bar>p - q\<bar> \<le> (of_int 3 + 1) / 2"
    using convertAmount_linear_within [of 3 a 26500, OF _ h2 h3 h4 h5 h6 h7] by auto
  have "p = 1589205" "q = 1589205" using pq(1,2) left right by simp_all
  moreover have "\<bar>p - q\<bar> \<le> 2" using pq(3) small by simp
  moreover have "jsmul (Fin 3) (Fin a) \<noteq> Fin (3 * a)"
    unfolding a_def by (simp add: product_3_1999 del: jsmul.simps)
  ultimately show ?thesis using left right unfolding a_def by simp
qed

text \<open>
  C7 fails without those conditions. Twice \<open>2 ^ 1023\<close> is infinite, and the conversion of
  an infinite amount is 0, while twice the conversion of \<open>2 ^ 1023\<close> is infinite. For
  the amount one half at the rate 1 the two sides, 2 and 4, are two units apart for
  \<open>k = 4\<close>. And for \<open>k = 12\<close>, the amount 1536369708304529.5 and the rate
  \<open>3436607100782129 / 2 ^ 54\<close>, with a product of about \<open>2 ^ 51.6\<close>, the two sides are
  seven units apart, more than \<open>(k + 1) / 2\<close>.
\<close>

theorem convertAmount_linear_counterexample:
  "convertAmount (jsmul (Fin 2) (Fin (2 ^ 1023))) (Fin 1) = Fin 0
 \<and> jsmul (Fin 2) (convertAmount (Fin (2 ^ 1023)) (Fin 1)) = PInf
 \<and> convertAmount (jsmul (Fin 4) (Fin (1 / 2))) (Fin 1) = Fin 2
 \<and> jsmul (Fin 4) (convertAmount (Fin (1 / 2)) (Fin 1)) = Fin 4
 \<and> convertAmount (jsmul (Fin 12) (Fin (3072739416609059 / 2)))
      (Fin (3436607100782129 / 18014398509481984)) = Fin 3517119295128377
 \<and> jsmul (Fin 12) (convertAmount (Fin (3072739416609059 / 2))
      (Fin (3436607100782129 / 18014398509481984))) = Fin 3517119295128384"
proof -
  have two: "fl 2 = Fin 2" and four: "fl 4 = Fin 4" using fl_int [of 2] fl_int [of 4] by simp_all
  have big: "jsmul (Fin 2) (Fin (2 ^ 1023)) = PInf" using fl_2_1024 by simp
  have "jsmul (Fin (2 ^ 1023)) (Fin 1) = Fin (2 ^ 1023)" using fl_2_1023 by simp
  moreover have "Math_round (Fin (2 ^ 1023)) = Fin (2 ^ 1023)"
    using Math_round_int [of "2 ^ 1023"] by simp
  ultimately have c: "convertAmount (Fin (2 ^ 1023)) (Fin 1) = Fin (2 ^ 1023)"
    by (simp add: convertAmount_def del: js_arith_simps)
  have 1: "convertAmount (jsmul (Fin 2) (Fin (2 ^ 1023))) (Fin 1) = Fin 0"
    by (simp only: big) (simp add: convertAmount_def)
  have 2: "jsmul (Fin 2) (convertAmount (Fin (2 ^ 1023)) (Fin 1)) = PInf"
    by (simp only: c big)
  have "jsmul (Fin 4) (Fin (1 / 2)) = Fin 2" "jsmul (Fin 2) (Fin 1) = Fin 2"
    by (simp_all add: two)
  moreover have "Math_round (Fin 2) = Fin 2" using Math_round_int [of 2] by simp
  ultimately have 3: "convertAmount (jsmul (Fin 4) (Fin (1 / 2))) (Fin 1) = Fin 2"
    by (simp add: convertAmount_def del: js_arith_simps)
  have 4: "jsmul (Fin 4) (convertAmount (Fin (1 / 2)) (Fin 1)) = Fin 4"
    by (simp add: convertAmount_def fl_half four)
  have r5: "Math_round (Fin 3517119295128377) = Fin 3517119295128377"
    using Math_round_int [of 3517119295128377] by simp
  have 5: "convertAmount (jsmul (Fin 12) (Fin (3072739416609059 / 2)))
      (Fin (3436607100782129 / 18014398509481984)) = Fin 3517119295128377"
    by (simp add: convertAmount_def product_12_large product_large_rate r5 del: js_arith_simps)
  have r6: "Math_round (Fin (586186549188063 / 2)) = Fin 293093274594032" by simp
  have c6: "convertAmount (Fin (3072739416609059 / 2)) (Fin (3436607100782129 / 18014398509481984)) =
      Fin 293093274594032"
    by (simp add: convertAmount_def product_amount_rate r6 del: js_arith_simps)
  have m6: "jsmul (Fin 12) (Fin 293093274594032) = Fin 3517119295128384"
    using jsmul_int [of 12 293093274594032] by simp
  have 6: "jsmul (Fin 12) (convertAmount (Fin (3072739416609059 / 2))
      (Fin (3436607100782129 / 18014398509481984))) = Fin 3517119295128384"
    by (simp only: c6 m6)
  from 1 2 3 4 5 6 show ?thesis by blast
qed

section \<open>The sentinel result\<close>

text \<open>
  C2. When \<^verbatim>\<open>monthly <= 0\<close> or either argument is not a finite number,
  \<^verbatim>\<open>calculateLongevity\<close> returns zero months, zero years and zero days.
\<close>

theorem calculateLongevity_sentinel:
  assumes "\<not> isFinite budget \<or> \<not> isFinite monthly \<or> jsle monthly (Fin 0)"
  shows "months (calculateLongevity budget monthly) = Fin 0
       \<and> years (calculateLongevity budget monthly) = Fin 0
       \<and> daysApprox (calculateLongevity budget monthly) = Fin 0"
  using assms by (auto simp add: calculateLongevity_def)

theorem calculateLongevity_sentinel_witness:
  "jsle (Fin (- 5)) (Fin 0)
   \<and> months (calculateLongevity (Fin 100) (Fin (- 5))) = Fin 0
   \<and> years (calculateLongevity (Fin 100) (Fin (- 5))) = Fin 0
   \<and> daysApprox (calculateLongevity (Fin 100) (Fin (- 5))) = Fin 0
   \<and> isFinite PInf = False
   \<and> months (calculateLongevity PInf (Fin 25000000)) = Fin 0
   \<and> years (calculateLongevity PInf (Fin 25000000)) = Fin 0
   \<and> daysApprox (calculateLongevity PInf (Fin 25000000)) = Fin 0"
  using calculateLongevity_sentinel [of "Fin 100" "Fin (- 5)"]
    calculateLongevity_sentinel [of PInf "Fin 25000000"]
  by simp

text \<open>
  C3, as the code has it. The sentinel result carries the budget unchanged as its remainder:
  the remainder is finite exactly when the budget is, and a NaN or infinite budget is
  returned as the remainder, not replaced by zero. The other three fields are zero.
  Behind the guard no field is NaN, and the four fields are finite exactly when no
  operation overflows: the quotient of the budget by the monthly cost, the product of the
  months and the monthly cost, and the quotient of the remainder by the daily expense. They
  are finite for every budget below \<open>2 ^ 52\<close> in magnitude with fewer than \<open>2 ^ 52\<close>
  months.
\<close>

theorem sentinel_remainder_is_budget:
  "(\<not> isFinite budget \<or> \<not> isFinite monthly \<or> jsle monthly (Fin 0) \<longrightarrow>
      calculateLongevity budget monthly =
        \<lparr>months = Fin 0, years = Fin 0, remainder = budget, daysApprox = Fin 0\<rparr>
    \<and> (isFinite (remainder (calculateLongevity budget monthly)) \<longleftrightarrow> isFinite budget))
 \<and> (fl b = Fin b \<and> fl m = Fin m \<and> 0 < m \<longrightarrow>
      months (calculateLongevity (Fin b) (Fin m)) \<noteq> NaN
    \<and> years (calculateLongevity (Fin b) (Fin m)) \<noteq> NaN
    \<and> remainder (calculateLongevity (Fin b) (Fin m)) \<noteq> NaN
    \<and> daysApprox (calculateLongevity (Fin b) (Fin m)) \<noteq> NaN
    \<and> ((isFinite (months (calculateLongevity (Fin b) (Fin m)))
        \<and> isFinite (years (calculateLongevity (Fin b) (Fin m)))
        \<and> isFinite (remainder (calculateLongevity (Fin b) (Fin m)))
        \<and> isFinite (daysApprox (calculateLongevity (Fin b) (Fin m)))) \<longleftrightarrow>
        (isFinite (jsdiv (Fin b) (Fin m))
        \<and> isFinite (jsmul (months (calculateLongevity (Fin b) (Fin m))) (Fin m))
        \<and> isFinite (jsdiv (remainder (calculateLongevity (Fin b) (Fin m)))
             (js_or_num (Some (jsdiv (Fin m) (Fin 30))) (Fin 1)))))
    \<and> (\<bar>b\<bar> < 2 ^ 52 \<and> \<bar>b\<bar> < 2 ^ 52 * m \<longrightarrow>
        isFinite (months (calculateLongevity (Fin b) (Fin m)))
      \<and> isFinite (years (calculateLongevity (Fin b) (Fin m)))
      \<and> isFinite (remainder (calculateLongevity (Fin b) (Fin m)))
      \<and> isFinite (daysApprox (calculateLongevity (Fin b) (Fin m)))))"
proof (intro conjI impI)
  assume "\<not> isFinite budget \<or> \<not> isFinite monthly \<or> jsle monthly (Fin 0)"
  then show "calculateLongevity budget monthly =
      \<lparr>months = Fin 0, years = Fin 0, remainder = budget, daysApprox = Fin 0\<rparr>"
    and "isFinite (remainder (calculateLongevity budget monthly)) \<longleftrightarrow> isFinite budget"
    by (auto simp add: calculateLongevity_def)
next
  assume h: "fl b = Fin b \<and> fl m = Fin m \<and> 0 < m"
  then have db: "double b" and dm: "double m" and m: "0 < m" by (simp_all add: double_def)
  note f = calculateLongevity_finite_iff [OF db dm m]
  show "months (calculateLongevity (Fin b) (Fin m)) \<noteq> NaN"
    and "years (calculateLongevity (Fin b) (Fin m)) \<noteq> NaN"
    and "remainder (calculateLongevity (Fin b) (Fin m)) \<noteq> NaN"
    and "daysApprox (calculateLongevity (Fin b) (Fin m)) \<noteq> NaN"
    by (rule f(1), rule f(2), rule f(3), rule f(4))
  show "(isFinite (months (calculateLongevity (Fin b) (Fin m)))
        \<and> isFinite (years (calculateLongevity (Fin b) (Fin m)))
        \<and> isFinite (remainder (calculateLongevity (Fin b) (Fin m)))
        \<and> isFinite (daysApprox (calculateLongevity (Fin b) (Fin m)))) \<longleftrightarrow>
        (isFinite (jsdiv (Fin b) (Fin m))
        \<and> isFinite (jsmul (months (calculateLongevity (Fin b) (Fin m))) (Fin m))
        \<and> isFinite (jsdiv (remainder (calculateLongevity (Fin b) (Fin m)))
             (js_or_num (Some (jsdiv (Fin m) (Fin 30))) (Fin 1))))"
    by (rule f(5))
  assume s: "\<bar>b\<bar> < 2 ^ 52 \<and> \<bar>b\<bar> < 2 ^ 52 * m"
  obtain n r d :: int where "calculateLongevity (Fin b) (Fin m) =
             \<lparr>months = Fin (of_int n), years = Fin (of_int (n div 12)),
              remainder = Fin (of_int r), daysApprox = Fin (of_int d)\<rparr>"
    using calculateLongevity_double [OF db dm s [THEN conjunct1] m s [THEN conjunct2]] by blast
  then show "isFinite (months (calculateLongevity (Fin b) (Fin m)))"
    and "isFinite (years (calculateLongevity (Fin b) (Fin m)))"
    and "isFinite (remainder (calculateLongevity (Fin b) (Fin m)))"
    and "isFinite (daysApprox (calculateLongevity (Fin b) (Fin m)))"
    by simp_all
qed

theorem sentinel_remainder_is_budget_witness:
  "jsle (Fin 0) (Fin 0)
   \<and> calculateLongevity (Fin 300000000) (Fin 0) =
       \<lparr>months = Fin 0, years = Fin 0, remainder = Fin 300000000, daysApprox = Fin 0\<rparr>
   \<and> isFinite (remainder (calculateLongevity (Fin 300000000) (Fin 0)))
   \<and> fl (15 / 2) = Fin (15 / 2) \<and> fl 1 = Fin 1
   \<and> months (calculateLongevity (Fin (15 / 2)) (Fin 1)) \<noteq> NaN
   \<and> isFinite (months (calculateLongevity (Fin (15 / 2)) (Fin 1)))
   \<and> isFinite (years (calculateLongevity (Fin (15 / 2)) (Fin 1)))
   \<and> isFinite (remainder (calculateLongevity (Fin (15 / 2)) (Fin 1)))
   \<and> isFinite (daysApprox (calculateLongevity (Fin (15 / 2)) (Fin 1)))"
proof -
  have d: "fl (15 / 2) = Fin (15 / 2)" "fl 1 = Fin 1"
    using double_dyadic [of 15 1] fl_int [of 1] by simp_all
  show ?thesis
    using sentinel_remainder_is_budget [of "Fin 300000000" "Fin 0" "15 / 2" 1] d by simp
qed

text \<open>
  C3, as the specification states it, fails: a budget that is NaN or infinite comes back
  as the remainder. And behind the guard a quotient that overflows gives infinite fields:
  for the budget \<open>2 ^ 1023\<close> and the monthly cost \<open>1 / 4\<close> the months are infinite and
  so is the remainder.
\<close>

theorem sentinel_remainder_counterexample:
  "remainder (calculateLongevity NaN (Fin 25000000)) = NaN
 \<and> \<not> isFinite (remainder (calculateLongevity NaN (Fin 25000000)))
 \<and> remainder (calculateLongevity PInf (Fin 25000000)) = PInf
 \<and> remainder (calculateLongevity PInf (Fin 25000000)) \<noteq> Fin 0
 \<and> months (calculateLongevity (Fin (2 ^ 1023)) (Fin (1 / 4))) = PInf
 \<and> remainder (calculateLongevity (Fin (2 ^ 1023)) (Fin (1 / 4))) = NInf
 \<and> \<not> isFinite (remainder (calculateLongevity (Fin (2 ^ 1023)) (Fin (1 / 4))))"
proof -
  have s: "remainder (calculateLongevity NaN (Fin 25000000)) = NaN"
    "remainder (calculateLongevity PInf (Fin 25000000)) = PInf"
    by (simp_all add: calculateLongevity_def)
  have pos: "(0::rat) < 1 / 4" by simp
  note g = calculateLongevity_behind_guard [OF pos, of "2 ^ 1023"]
  have m: "months (calculateLongevity (Fin (2 ^ 1023)) (Fin (1 / 4))) = PInf"
    by (simp only: g(1) quotient_2_1025 Math_floor.simps)
  have p: "jsmul PInf (Fin (1 / 4)) = PInf" by simp
  have r: "remainder (calculateLongevity (Fin (2 ^ 1023)) (Fin (1 / 4))) = NInf"
    by (simp only: g(3) m p jssub.simps jsneg.simps Math_round.simps)
  show ?thesis by (simp only: s m r) simp
qed

section \<open>The two implementations\<close>

text \<open>
  C10. \<^verbatim>\<open>NomadFlow.calculateLongevity\<close> and \<^verbatim>\<open>BudgetUtils.calculateLongevity\<close>
  return the same months, years, remainder and days on every pair of arguments.
\<close>

theorem longevity_implementations_agree:
  "vnd_months (BudgetUtils_calculateLongevity budget monthly) = months (calculateLongevity budget monthly)
 \<and> vnd_years (BudgetUtils_calculateLongevity budget monthly) = years (calculateLongevity budget monthly)
 \<and> remainderVND (BudgetUtils_calculateLongevity budget monthly) = remainder (calculateLongevity budget monthly)
 \<and> vnd_daysApprox (BudgetUtils_calculateLongevity budget monthly) = daysApprox (calculateLongevity budget monthly)"
  by (simp add: BudgetUtils_calculateLongevity_def calculateLongevity_def Let_def)

theorem longevity_implementations_agree_witness:
  "vnd_months (BudgetUtils_calculateLongevity (Fin 310000000) (Fin 25000000)) =
     months (calculateLongevity (Fin 310000000) (Fin 25000000))
 \<and> vnd_years (BudgetUtils_calculateLongevity (Fin 310000000) (Fin 25000000)) =
     years (calculateLongevity (Fin 310000000) (Fin 25000000))
 \<and> remainderVND (BudgetUtils_calculateLongevity (Fin 310000000) (Fin 25000000)) =
     remainder (calculateLongevity (Fin 310000000) (Fin 25000000))
 \<and> vnd_daysApprox (BudgetUtils_calculateLongevity (Fin 310000000) (Fin 25000000)) =
     daysApprox (calculateLongevity (Fin 310000000) (Fin 25000000))
 \<and> remainderVND (BudgetUtils_calculateLongevity NaN (Fin 0)) =
     remainder (calculateLongevity NaN (Fin 0))"
  using longevity_implementations_agree [of "Fin 310000000" "Fin 25000000"]
    longevity_implementations_agree [of NaN "Fin 0"]
  by blast

section \<open>Lifestyle tiers\<close>





lemma standard_not_inherited:
  "''standard'' \<notin> set Object_prototype_names"
  by (simp add: Object_prototype_names_def Object_prototype_methods_def)









lemma getLifestyleAmount_examples:
  "getLifestyleAmount ''VN'' ''highlife'' = Inr (JNum (Fin 60000000))"
  "getLifestyleAmount ''JP'' ''luxury'' = Inr (JNum (Fin 350000))"
  "getLifestyleAmount ''XX'' ''budget'' = Inr (JNum (Fin 0))"
  "getLifestyleAmount ''toString'' ''length'' = Inr (JNum (Fin 0))"
  "getLifestyleAmount ''toString'' ''name'' = Inr (JString ''toString'')"
  "getLifestyleAmount ''__proto__'' ''__proto__'' = Inr (JNum (Fin 0))"
  "getLifestyleAmount ''constructor'' ''keys'' = Inr (JObject ''Object.keys'')"
  "getLifestyleAmount ''valueOf'' ''call'' = Inr (JObject ''Function.prototype.call'')"
  by (simp_all add: getLifestyleAmount_def tier_of_def LIFESTYLE_MATRIX_get_def LIFESTYLE_MATRIX_def
      read_Object_prototype_def read_Function_prototype_def Object_prototype_methods_def
      Object_static_methods_def Function_prototype_methods_def)

section \<open>The fallback rate\<close>

lemma COUNTRY_CONFIG_truthy:
  "COUNTRY_CONFIG c = Some config \<Longrightarrow> fallbackRate config k = Some v \<Longrightarrow> truthy v"
  by (auto simp add: COUNTRY_CONFIG_def split: if_splits)

lemma COUNTRY_CONFIG_USD:
  "COUNTRY_CONFIG c = Some config \<Longrightarrow> \<exists>v. fallbackRate config ''USD'' = Some v"
  by (auto simp add: COUNTRY_CONFIG_def split: if_splits)

lemma try_fetch_failed:
  "lookup_failed toCurrency outcome \<Longrightarrow> \<exists>err. try_fetch toCurrency outcome = Inl err"
  by (cases "(toCurrency, outcome)" rule: lookup_failed.cases)
     (auto simp add: try_fetch_def split: option.splits jsvalue.splits)

text \<open>
  C5. When the live lookup fails (the transport fails, the response is not ok, its body
  does not parse, or the rate of the destination currency is missing or not a number),
  \<^verbatim>\<open>fetchExchangeRate\<close> throws nothing and returns a number: the fallback rate that the
  profile of the current country has for the source currency, whose code is looked up in
  upper case, or the profile's rate for USD when the table has no entry for that currency.
\<close>

theorem fetchExchangeRate_fallback:
  assumes "COUNTRY_CONFIG currentCountry = Some config"
    and "lookup_failed toCurrency outcome"
  shows "fetchExchangeRate currentCountry fromCurrency toCurrency outcome =
           Inr (case fallbackRate config (toUpperCase fromCurrency) of
                  Some rate \<Rightarrow> Some rate
                | None \<Rightarrow> fallbackRate config ''USD'')
       \<and> (\<exists>rate. fetchExchangeRate currentCountry fromCurrency toCurrency outcome = Inr (Some rate))"
proof -
  obtain err where "try_fetch toCurrency outcome = Inl err"
    using try_fetch_failed [OF assms(2)] by blast
  then have caught: "fetchExchangeRate currentCountry fromCurrency toCurrency outcome =
      Inr (js_or (fallbackRate config (toUpperCase fromCurrency)) (fallbackRate config ''USD''))"
    using assms(1) by (simp add: fetchExchangeRate_def catch_fallback_def)
  obtain usd where usd: "fallbackRate config ''USD'' = Some usd"
    using COUNTRY_CONFIG_USD [OF assms(1)] by blast
  show ?thesis
  proof (cases "fallbackRate config (toUpperCase fromCurrency)")
    case None
    with caught usd show ?thesis by simp
  next
    case (Some rate)
    then have "truthy rate"
      using COUNTRY_CONFIG_truthy [OF assms(1)] by blast
    with caught Some show ?thesis by simp
  qed
qed

theorem fetchExchangeRate_fallback_witness:
  "COUNTRY_CONFIG ''TH'' = Some \<lparr>currency = ''THB'', fallbackRate = map_of
         [(''USD'', Fin 35), (''EUR'', Fin 38), (''GBP'', Fin 44),
          (''AUD'', Fin 23), (''CAD'', Fin 26), (''RON'', Fin (15 / 2))]\<rparr>
   \<and> lookup_failed ''THB'' (Responded False Unparsable)
   \<and> fetchExchangeRate ''TH'' ''gbp'' ''THB'' (Responded False Unparsable) = Inr (Some (Fin 44))
   \<and> lookup_failed ''THB'' Rejected
   \<and> fetchExchangeRate ''TH'' ''JPY'' ''THB'' Rejected = Inr (Some (Fin 35))"
proof -
  have config: "COUNTRY_CONFIG ''TH'' = Some \<lparr>currency = ''THB'', fallbackRate = map_of
         [(''USD'', Fin 35), (''EUR'', Fin 38), (''GBP'', Fin 44),
          (''AUD'', Fin 23), (''CAD'', Fin 26), (''RON'', Fin (15 / 2))]\<rparr>"
    by (simp add: COUNTRY_CONFIG_def)
  have failed: "lookup_failed ''THB'' (Responded False Unparsable)" "lookup_failed ''THB'' Rejected"
    by simp_all
  show ?thesis
    using config failed
      fetchExchangeRate_fallback [OF config failed(1), of "''gbp''"]
      fetchExchangeRate_fallback [OF config failed(2), of "''JPY''"]
    by (simp add: toUpperCase_def upper_char_def)
qed

end
